theory Spec2Isabelle
  imports Complex_Main "HOL-Library.Log_Nat"
begin

section \<open>JavaScript numbers\<close>

text \<open>
  The magnitudes of the readings are JavaScript numbers, that is IEEE 754 doubles.
  \<open>Finite m e\<close> is the double of value \<open>m * 2 ^ e\<close>, where \<open>\<bar>m\<bar> < 2 ^ 53\<close> and
  \<open>-1074 \<le> e \<le> 971\<close>; the two zeros are not told apart (no operation used here does).
  Of the arithmetic, the detector uses the subtraction, \<open>Math.abs\<close> and \<open>>=\<close>.
\<close>

datatype double = Finite int int | PosInf | NegInf | NaN

text \<open>
  The double nearest to \<open>m * 2 ^ e\<close>, ties to the even significand, for \<open>-1074 \<le> e\<close>:
  a significand of more than 53 bits loses its low bits, and a result beyond the largest
  double is an infinity.
\<close>

definition round_to_double :: "int \<Rightarrow> int \<Rightarrow> double" where
  "round_to_double m e =
     (let a = \<bar>m\<bar> in
      if a < 2 ^ 53 then Finite m e
      else (let k = nat (bitlen a - 53);
                q = a div 2 ^ k;
                r = a mod 2 ^ k;
                half = 2 ^ (k - 1);
                q1 = (if half < r \<or> (r = half \<and> odd q) then q + 1 else q);
                q2 = (if q1 = 2 ^ 53 then 2 ^ 52 else q1);
                e2 = (if q1 = 2 ^ 53 then e + int k + 1 else e + int k)
            in if 971 < e2 then (if m < 0 then NegInf else PosInf)
               else Finite (if m < 0 then - q2 else q2) e2))"

text \<open>\<open>x - y\<close> on doubles: the exact difference, rounded.\<close>

fun fsub :: "double \<Rightarrow> double \<Rightarrow> double" where
  "fsub NaN y = NaN"
| "fsub x NaN = NaN"
| "fsub PosInf PosInf = NaN"
| "fsub NegInf NegInf = NaN"
| "fsub PosInf y = PosInf"
| "fsub NegInf y = NegInf"
| "fsub x PosInf = NegInf"
| "fsub x NegInf = PosInf"
| "fsub (Finite m1 e1) (Finite m2 e2) =
     (let e = min e1 e2
      in round_to_double (m1 * 2 ^ nat (e1 - e) - m2 * 2 ^ nat (e2 - e)) e)"

text \<open>\<open>Math.abs\<close>.\<close>

fun fabs :: "double \<Rightarrow> double" where
  "fabs (Finite m e) = Finite \<bar>m\<bar> e"
| "fabs PosInf = PosInf"
| "fabs NegInf = PosInf"
| "fabs NaN = NaN"

text \<open>\<open>x >= y\<close> on doubles; false when an operand is \<open>NaN\<close>.\<close>

fun dge :: "double \<Rightarrow> double \<Rightarrow> bool" where
  "dge NaN y = False"
| "dge x NaN = False"
| "dge PosInf y = True"
| "dge x NegInf = True"
| "dge NegInf y = False"
| "dge x PosInf = False"
| "dge (Finite m1 e1) (Finite m2 e2) =
     (let e = min e1 e2 in m2 * 2 ^ nat (e2 - e) \<le> m1 * 2 ^ nat (e1 - e))"

text \<open>The real number a finite double stands for.\<close>

fun dval :: "double \<Rightarrow> real" where
  "dval (Finite m e) = real_of_int m * 2 powr real_of_int e"
| "dval x = 0"

section \<open>Change detector (CalibratedFlickerDetector)\<close>

text \<open>
  The detector keeps one two-element array per attribute, indexed by the sensor
  (channel) number 0 or 1. The arrays are lists here; the constructor creates them with
  two elements and no method changes their length (\<open>detector_wf\<close>). An array slot
  holding \<open>null\<close> is \<open>None\<close>.
\<close>

record detector =
  isOn :: "bool list"
  wasOn :: "bool list"
  lastValue :: "double option list"
  threshold :: "double option list"
  blinkCount :: "nat list"
  whiteValue :: "double option list"
  blackValue :: "double option list"

definition new_detector :: detector where
  "new_detector =
     \<lparr>isOn = [False, False], wasOn = [False, False], lastValue = [None, None],
      threshold = [None, None], blinkCount = [0, 0],
      whiteValue = [None, None], blackValue = [None, None]\<rparr>"

definition detector_wf :: "detector \<Rightarrow> bool" where
  "detector_wf d =
     (length (isOn d) = 2 \<and> length (wasOn d) = 2 \<and> length (lastValue d) = 2 \<and>
      length (threshold d) = 2 \<and> length (blinkCount d) = 2)"

text \<open>
  \<open>x >= t\<close> on JavaScript numbers converts a \<open>null\<close> operand to 0
  (the threshold array holds \<open>null\<close> until calibration has run).
\<close>

fun toNumber :: "double option \<Rightarrow> double" where
  "toNumber None = Finite 0 0"
| "toNumber (Some v) = v"

definition detectStateChange :: "detector \<Rightarrow> double \<Rightarrow> double \<Rightarrow> detector \<times> bool list" where
  "detectStateChange d currentValue1 currentValue2 =
     (let changes = [False, False];
          (d1, changes1) =
            (case lastValue d ! 0 of
               None \<Rightarrow> (d\<lparr>lastValue := (lastValue d)[0 := Some currentValue1]\<rparr>, changes)
             | Some prev \<Rightarrow>
                 (let change1 = fabs (fsub currentValue1 prev)
                  in (d\<lparr>lastValue := (lastValue d)[0 := Some currentValue1],
                        isOn := (isOn d)[0 := dge change1 (toNumber (threshold d ! 0))]\<rparr>,
                      changes[0 := True])));
          (d2, changes2) =
            (case lastValue d1 ! 1 of
               None \<Rightarrow> (d1\<lparr>lastValue := (lastValue d1)[1 := Some currentValue2]\<rparr>, changes1)
             | Some prev \<Rightarrow>
                 (let change2 = fabs (fsub currentValue2 prev)
                  in (d1\<lparr>lastValue := (lastValue d1)[1 := Some currentValue2],
                        isOn := (isOn d1)[1 := dge change2 (toNumber (threshold d1 ! 1))]\<rparr>,
                      changes1[1 := True])))
      in (d2, changes2))"

definition logBlink :: "detector \<Rightarrow> nat \<Rightarrow> detector" where
  "logBlink d sensorIndex =
     d\<lparr>blinkCount := (blinkCount d)[sensorIndex := Suc (blinkCount d ! sensorIndex)]\<rparr>"

text \<open>The magnitude a reading carries for a channel: \<open>value1\<close> for 0, \<open>value2\<close> otherwise.\<close>

definition channel :: "nat \<Rightarrow> double \<times> double \<Rightarrow> double" where
  "channel i reading = (if i = 0 then fst reading else snd reading)"

text \<open>
  Feeding a sequence of readings to \<open>detectStateChange\<close>, one call per reading: the list
  of the detector states and of the \<open>changes\<close> arrays the calls return.
\<close>

fun detect_all :: "detector \<Rightarrow> (double \<times> double) list \<Rightarrow> (detector \<times> bool list) list" where
  "detect_all d [] = []"
| "detect_all d (r # rs) =
     (let res = detectStateChange d (fst r) (snd r) in res # detect_all (fst res) rs)"

text \<open>The detector state a call of the sequence starts from.\<close>

definition state_before :: "detector \<Rightarrow> (double \<times> double) list \<Rightarrow> nat \<Rightarrow> detector" where
  "state_before d rs k = (if k = 0 then d else fst (detect_all d rs ! (k - 1)))"

section \<open>Segmented recorder (BlinkCameraController)\<close>

text \<open>
  A file is identified by its directory and its base name: \<open>path.join(dir, file)\<close> builds
  the pair and \<open>path.basename\<close> reads its second component. The file system is the list
  of the files that exist, in the order a directory listing shows them. The \<open>fs\<close> calls
  of the controller are modelled as failing only when the file they are given does not
  exist; the controller catches and logs those failures.
\<close>

type_synonym filepath = "string \<times> string"
type_synonym filesystem = "filepath list"

definition path_join :: "string \<Rightarrow> string \<Rightarrow> filepath" where
  "path_join dir file = (dir, file)"

definition basename :: "filepath \<Rightarrow> string" where
  "basename p = snd p"

definition endsWith :: "string \<Rightarrow> string \<Rightarrow> bool" where
  "endsWith s suffix =
     (length suffix \<le> length s \<and> drop (length s - length suffix) s = suffix)"

definition readdirSync :: "filesystem \<Rightarrow> string \<Rightarrow> string list" where
  "readdirSync fs dir = map snd (filter (\<lambda>p. fst p = dir) fs)"

definition unlinkSync :: "filesystem \<Rightarrow> filepath \<Rightarrow> filesystem option" where
  "unlinkSync fs p = (if p \<in> set fs then Some (removeAll p fs) else None)"

definition renameSync :: "filesystem \<Rightarrow> filepath \<Rightarrow> filepath \<Rightarrow> filesystem option" where
  "renameSync fs old new =
     (if old \<notin> set fs then None
      else if old = new then Some fs
      else Some (map (\<lambda>p. if p = old then new else p) (removeAll new fs)))"

text \<open>The encoder opening a new output target creates (or truncates) the file.\<close>

definition create_file :: "filesystem \<Rightarrow> filepath \<Rightarrow> filesystem" where
  "create_file fs p = (if p \<in> set fs then fs else fs @ [p])"

text \<open>An entry of \<open>videoQueue\<close>: \<open>{path, timestamp}\<close>, the time in milliseconds.\<close>

record segment =
  path :: filepath
  timestamp :: int

text \<open>
  \<open>segmentsWithBlinks\<close> is a JavaScript \<open>Set\<close>: a list without duplicates in insertion
  order. \<open>bufferProcess\<close> and \<open>cleanupInterval\<close> record whether the handle is set;
  \<open>encoderExited\<close> is the state of the child process behind \<open>bufferProcess\<close>: whether
  it has emitted its \<open>exit\<close> event. It is read only while \<open>bufferProcess\<close> is set.
\<close>

record controller =
  outputDir :: string
  bufferProcess :: bool
  encoderExited :: bool
  segmentsWithBlinks :: "filepath list"
  currentSegment :: "filepath option"
  videoQueue :: "segment list"
  cleanupInterval :: bool
  segmentDuration :: int
  retentionWindow :: int

definition new_controller :: "string \<Rightarrow> controller" where
  "new_controller dir =
     \<lparr>outputDir = dir, bufferProcess = False, encoderExited = False, segmentsWithBlinks = [],
      currentSegment = None, videoQueue = [], cleanupInterval = False,
      segmentDuration = 30, retentionWindow = 2\<rparr>"

definition set_add :: "'a \<Rightarrow> 'a list \<Rightarrow> 'a list" where
  "set_add x xs = (if x \<in> set xs then xs else xs @ [x])"

definition handleBlinkDetected :: "controller \<Rightarrow> controller" where
  "handleBlinkDetected c =
     (case currentSegment c of
        None \<Rightarrow> c
      | Some cur \<Rightarrow> c\<lparr>segmentsWithBlinks := set_add cur (segmentsWithBlinks c)\<rparr>)"

text \<open>
  The loop of \<open>performCleanup\<close>: \<open>now\<close> is the value of \<open>Date.now()\<close> read once before the
  loop. A failing \<open>unlinkSync\<close> is caught and logged.
\<close>

fun cleanup_loop ::
  "filepath list \<Rightarrow> int \<Rightarrow> int \<Rightarrow> segment list \<Rightarrow> filesystem \<Rightarrow> segment list \<times> filesystem" where
  "cleanup_loop blinks now retentionPeriod [] fs = ([], fs)"
| "cleanup_loop blinks now retentionPeriod (seg # queue) fs =
     (if now - timestamp seg > retentionPeriod
      then cleanup_loop blinks now retentionPeriod queue
             (if path seg \<notin> set blinks
              then (case unlinkSync fs (path seg) of Some fs' \<Rightarrow> fs' | None \<Rightarrow> fs)
              else fs)
      else (seg # queue, fs))"

definition performCleanup :: "controller \<Rightarrow> int \<Rightarrow> filesystem \<Rightarrow> controller \<times> filesystem" where
  "performCleanup c now fs =
     (let retentionPeriod = segmentDuration c * 1000 * retentionWindow c;
          res = cleanup_loop (segmentsWithBlinks c) now retentionPeriod (videoQueue c) fs
      in (c\<lparr>videoQueue := fst res\<rparr>, snd res))"

text \<open>
  A queued segment is aged at \<open>now\<close> when the time since it was queued exceeds the
  retention period.
\<close>

definition retentionPeriod :: "controller \<Rightarrow> int" where
  "retentionPeriod c = segmentDuration c * 1000 * retentionWindow c"

definition aged :: "controller \<Rightarrow> int \<Rightarrow> segment \<Rightarrow> bool" where
  "aged c now seg = (now - timestamp seg > retentionPeriod c)"

text \<open>
  The handler of the encoder's \<open>Opening '...' for writing\<close> line, with the path the line
  names and the time \<open>Date.now()\<close> shows.
\<close>

definition segment_opened :: "controller \<Rightarrow> filepath \<Rightarrow> int \<Rightarrow> filesystem \<Rightarrow> controller \<times> filesystem" where
  "segment_opened c target now fs =
     (let previousSegment = currentSegment c;
          c1 = c\<lparr>currentSegment := Some target\<rparr>
      in case previousSegment of
           None \<Rightarrow> (c1, fs)
         | Some previous \<Rightarrow>
             performCleanup
               (c1\<lparr>videoQueue := videoQueue c1 @ [\<lparr>path = previous, timestamp = now\<rparr>]\<rparr>) now fs)"

text \<open>
  \<open>startContinuousRecording\<close> spawns the encoder and sets the cleanup timer; it leaves the
  must-keep set, the current segment and the queue as they are.
\<close>

definition startContinuousRecording :: "controller \<Rightarrow> controller" where
  "startContinuousRecording c =
     c\<lparr>bufferProcess := True, encoderExited := False, cleanupInterval := True\<rparr>"

text \<open>
  The encoder exits on its own (the camera is unplugged, the encoder fails): the handler
  that \<open>startContinuousRecording\<close> registers for the \<open>exit\<close> event writes a log line
  and leaves \<open>bufferProcess\<close> set.
\<close>

definition encoder_exited :: "controller \<Rightarrow> controller" where
  "encoder_exited c = c\<lparr>encoderExited := True\<rparr>"

text \<open>The final sweep over the listing of the output directory taken at its start.\<close>

fun processVideos_loop :: "controller \<Rightarrow> string list \<Rightarrow> filesystem \<Rightarrow> filesystem" where
  "processVideos_loop c [] fs = fs"
| "processVideos_loop c (file # files) fs =
     (if \<not> endsWith file ''.mp4'' then processVideos_loop c files fs
      else
        (let filePath = path_join (outputDir c) file;
             shouldSave = list_ex (\<lambda>segment. basename segment = file) (segmentsWithBlinks c)
         in if shouldSave
            then (let newName = ''blink_'' @ file;
                      newPath = path_join (outputDir c) newName
                  in case renameSync fs filePath newPath of
                       Some fs' \<Rightarrow> processVideos_loop c files fs'
                     | None \<Rightarrow> processVideos_loop c files fs)
            else (case unlinkSync fs filePath of
                    Some fs' \<Rightarrow> processVideos_loop c files fs'
                  | None \<Rightarrow> processVideos_loop c files fs)))"

definition processVideos :: "controller \<Rightarrow> filesystem \<Rightarrow> filesystem" where
  "processVideos c fs = processVideos_loop c (readdirSync fs (outputDir c)) fs"

text \<open>
  The last loop of \<open>stopRecording\<close>: \<open>while (this.videoQueue.length > 0) await
  this.performCleanup()\<close>. Every pass reads \<open>Date.now()\<close> anew; \<open>clock k\<close> is the value
  the \<open>k\<close>-th read returns. The loop may run forever, which is the value \<open>None\<close>.
\<close>

partial_function (option) drain ::
  "(nat \<Rightarrow> int) \<Rightarrow> nat \<Rightarrow> controller \<Rightarrow> filesystem \<Rightarrow> (controller \<times> filesystem \<times> nat) option" where
  "drain clock k c fs =
     (if videoQueue c \<noteq> []
      then drain clock (Suc k) (fst (performCleanup c (clock k) fs))
             (snd (performCleanup c (clock k) fs))
      else Some (c, fs, k))"

text \<open>
  \<open>stopRecording\<close>. With \<open>bufferProcess\<close> set it writes \<open>q\<close> to the encoder, arms a timer
  that kills the encoder after two seconds, and awaits a promise that only a listener for
  the encoder's \<open>exit\<close> event resolves; the listener is registered at that moment. A
  running encoder exits on \<open>q\<close> or on the kill, so the wait ends. An encoder that has
  already exited has emitted its one \<open>exit\<close> event before the listener was registered and
  emits none on the kill: the promise is never resolved and \<open>stopRecording\<close> does not
  return, which is the value \<open>None\<close>. After the wait come the sweep, the clearing of the
  timer and the last loop. The result is the controller, the file system and the number of
  clock reads made.
\<close>

definition stopRecording ::
  "(nat \<Rightarrow> int) \<Rightarrow> nat \<Rightarrow> controller \<Rightarrow> filesystem \<Rightarrow> (controller \<times> filesystem \<times> nat) option" where
  "stopRecording clock k c fs =
     (if bufferProcess c \<and> encoderExited c then None
      else
        (let res = (if bufferProcess c
                    then (c\<lparr>bufferProcess := False\<rparr>, processVideos c fs)
                    else (c, fs));
             c2 = (fst res)\<lparr>cleanupInterval := False\<rparr>
         in drain clock k c2 (snd res)))"

text \<open>
  \<open>cleanOutputDirectory\<close>, which \<open>initialize\<close> runs before a recording: every
  \<open>.mp4\<close> file of the output directory is deleted.
\<close>

definition cleanOutputDirectory :: "string \<Rightarrow> filesystem \<Rightarrow> filesystem" where
  "cleanOutputDirectory dir fs = filter (\<lambda>p. \<not> (fst p = dir \<and> endsWith (snd p) ''.mp4'')) fs"

text \<open>
  What happens to the controller during a recording: the encoder opens a new output target
  (it creates the file, and the handler of its \<open>Opening\<close> line runs at the time given),
  the correlator reports a blink, or the cleanup timer fires at the time given.
\<close>

datatype recorder_event = Opening filepath int | BlinkDetected | CleanupTick int

fun recorder_step :: "controller \<times> filesystem \<Rightarrow> recorder_event \<Rightarrow> controller \<times> filesystem" where
  "recorder_step (c, fs) (Opening p now) = segment_opened c p now (create_file fs p)"
| "recorder_step (c, fs) BlinkDetected = (handleBlinkDetected c, fs)"
| "recorder_step (c, fs) (CleanupTick now) = performCleanup c now fs"

definition recorder_run ::
  "controller \<times> filesystem \<Rightarrow> recorder_event list \<Rightarrow> controller \<times> filesystem" where
  "recorder_run start es = foldl recorder_step start es"

text \<open>A run starts with a new controller on the cleaned output directory.\<close>

definition recording_start :: "string \<Rightarrow> filesystem \<Rightarrow> controller \<times> filesystem" where
  "recording_start dir fs0 =
     (startContinuousRecording (new_controller dir), cleanOutputDirectory dir fs0)"

fun opened :: "recorder_event list \<Rightarrow> filepath list" where
  "opened [] = []"
| "opened (Opening p now # es) = p # opened es"
| "opened (e # es) = opened es"

fun opening_times :: "recorder_event list \<Rightarrow> int list" where
  "opening_times [] = []"
| "opening_times (Opening p now # es) = now # opening_times es"
| "opening_times (e # es) = opening_times es"

definition startsWith :: "string \<Rightarrow> string \<Rightarrow> bool" where
  "startsWith s pre = (take (length pre) s = pre)"

text \<open>
  The output targets of the encoder: files of the output directory named
  \<open>segment_NNN_timestamp.mp4\<close>, so \<open>.mp4\<close> files whose names do not start with the
  marker \<open>blink_\<close>.
\<close>

definition segment_file :: "string \<Rightarrow> filepath \<Rightarrow> bool" where
  "segment_file dir p =
     (fst p = dir \<and> endsWith (snd p) ''.mp4'' \<and> \<not> startsWith (snd p) ''blink_'')"

text \<open>
  What holds of the controller and the files during a recording into \<open>dir\<close> whose opened
  targets so far are \<open>ps\<close>: marked, queued and current segments are opened targets; the
  current segment is not queued; the files of the marked and of the current segment exist;
  every \<open>.mp4\<close> file of the directory is an opened target.
\<close>

definition recorder_inv :: "string \<Rightarrow> filepath set \<Rightarrow> controller \<times> filesystem \<Rightarrow> bool" where
  "recorder_inv dir ps s =
     (let c = fst s; fs = snd s
      in outputDir c = dir \<and> bufferProcess c \<and>
         set (segmentsWithBlinks c) \<subseteq> ps \<and>
         path ` set (videoQueue c) \<subseteq> ps \<and>
         (case currentSegment c of
            None \<Rightarrow> True
          | Some cur \<Rightarrow> cur \<in> ps \<and> cur \<in> set fs \<and> cur \<notin> path ` set (videoQueue c)) \<and>
         set (segmentsWithBlinks c) \<subseteq> set fs \<and>
         {p \<in> set fs. fst p = dir \<and> endsWith (snd p) ''.mp4''} \<subseteq> ps)"

section \<open>Correlator (IntegratedBlinkTest)\<close>

text \<open>
  The fields of the test object the polling loop uses. \<open>testBlinkCount\<close> is the test's own
  \<open>blinkCount\<close> (the detector has a field of that name); \<open>csvLines\<close> are the
  \<open>sensor,value\<close> lines appended to the log file.
\<close>

record blink_test =
  flickerDetector :: detector
  cameraController :: controller
  isRunning :: bool
  testBlinkCount :: nat
  csvLines :: "(nat \<times> double) list"

definition new_blink_test :: "string \<Rightarrow> blink_test" where
  "new_blink_test dir =
     \<lparr>flickerDetector = new_detector, cameraController = new_controller dir,
      isRunning = False, testBlinkCount = 0, csvLines = []\<rparr>"

text \<open>The body of \<open>for (let i = 0; i < 2; i++)\<close> in \<open>startTest\<close>.\<close>

definition channel_pass :: "bool list \<Rightarrow> double \<times> double \<Rightarrow> blink_test \<Rightarrow> nat \<Rightarrow> blink_test" where
  "channel_pass changes reading t i =
     (if changes ! i
      then (let t1 = (if isOn (flickerDetector t) ! i \<and> \<not> wasOn (flickerDetector t) ! i
                      then t\<lparr>testBlinkCount := Suc (testBlinkCount t),
                             csvLines := csvLines t @ [(i + 1, channel i reading)],
                             cameraController := handleBlinkDetected (cameraController t)\<rparr>
                      else t);
                d = flickerDetector t1
            in t1\<lparr>flickerDetector := d\<lparr>wasOn := (wasOn d)[i := isOn d ! i]\<rparr>\<rparr>)
      else t)"

text \<open>One pass of the polling loop of \<open>startTest\<close> whose \<open>ReadSensor\<close> returned a reading.\<close>

definition poll_cycle :: "blink_test \<Rightarrow> double \<times> double \<Rightarrow> blink_test" where
  "poll_cycle t reading =
     (let res = detectStateChange (flickerDetector t) (fst reading) (snd reading);
          t0 = t\<lparr>flickerDetector := fst res\<rparr>
      in channel_pass (snd res) reading (channel_pass (snd res) reading t0 0) 1)"

text \<open>The loop over a sequence of readings.\<close>

definition poll_cycles :: "blink_test \<Rightarrow> (double \<times> double) list \<Rightarrow> blink_test" where
  "poll_cycles t readings = foldl poll_cycle t readings"

text \<open>
  A rising edge of channel \<open>i\<close> in the cycle that starts in \<open>t\<close>: the on/off state
  of the channel is off when the cycle starts (as the cycle before has left it) and on
  when the cycle ends.
\<close>

definition rising_edge :: "blink_test \<Rightarrow> double \<times> double \<Rightarrow> nat \<Rightarrow> bool" where
  "rising_edge t reading i =
     (\<not> isOn (flickerDetector t) ! i \<and> isOn (flickerDetector (poll_cycle t reading)) ! i)"

text \<open>
  The rising edges of a sequence of cycles, counted per channel and added up.
\<close>

fun rising_total :: "blink_test \<Rightarrow> (double \<times> double) list \<Rightarrow> nat" where
  "rising_total t [] = 0"
| "rising_total t (r # rs) =
     (if rising_edge t r 0 then 1 else 0) + (if rising_edge t r 1 then 1 else 0) +
     rising_total (poll_cycle t r) rs"

text \<open>
  Between two cycles the loop's record of the state of the cycle before, \<open>wasOn\<close>, is
  the on/off state itself. This holds of a new detector.
\<close>

definition between_cycles :: "blink_test \<Rightarrow> bool" where
  "between_cycles t =
     (detector_wf (flickerDetector t) \<and> wasOn (flickerDetector t) = isOn (flickerDetector t))"

section \<open>Serial link (DeviceSerialPort)\<close>

text \<open>
  The link object: the port handle (absent when closed), the path it is bound to, the busy
  flag of the one outstanding command, and the text the data listener has received after
  the last line break (the variable \<open>buffer\<close> of \<open>setupDataListener\<close>). The module
  variable \<open>savedPortPath\<close> is passed to the functions that use it and returned by them.
\<close>

datatype link_error =
  NoSerialPortsFound | FailedToOpenPort | FailedToSendCommand | SensorReadTimeout |
  InvalidSensorDataFormat | PortError | PortHandleMissing

record serial_port =
  port_path :: string
  isOpen :: bool

record link =
  port :: "serial_port option"
  portPath :: "string option"
  isBusy :: bool
  reconnectAttempts :: nat
  buffer :: string

definition new_link :: link where
  "new_link = \<lparr>port = None, portPath = None, isBusy = False, reconnectAttempts = 0, buffer = []\<rparr>"

text \<open>The link as a successful \<open>initialize\<close> on a new link leaves it.\<close>

definition opened_link :: "string \<Rightarrow> link" where
  "opened_link selected =
     new_link\<lparr>portPath := Some selected,
              port := Some \<lparr>port_path = selected, isOpen = True\<rparr>\<rparr>"

subsection \<open>The sensor response pattern\<close>

text \<open>
  The regular expression \<open>^(\d+\.\d+),\s*(\d+\.\d+)$\<close>. Its pieces match disjoint sets
  of characters, so the greedy match is the only one. Characters are bytes; \<open>\s\<close> is
  the ASCII white space (the white space beyond ASCII is not modelled).
\<close>

definition is_digit :: "char \<Rightarrow> bool" where
  "is_digit ch = (ch \<in> set ''0123456789'')"

definition is_space :: "char \<Rightarrow> bool" where
  "is_space ch = (ch \<in> {CHR '' '', CHR 0x09, CHR 0x0A, CHR 0x0B, CHR 0x0C, CHR 0x0D})"

text \<open>\<open>\d+\.\d+\<close> at the front of a text: the match and the rest.\<close>

definition take_number :: "string \<Rightarrow> (string \<times> string) option" where
  "take_number s =
     (let whole = takeWhile is_digit s in
      if whole = [] then None
      else (case dropWhile is_digit s of
              [] \<Rightarrow> None
            | dot # after_dot \<Rightarrow>
                (let frac = takeWhile is_digit after_dot in
                 if dot \<noteq> CHR ''.'' \<or> frac = [] then None
                 else Some (whole @ ''.'' @ frac, dropWhile is_digit after_dot))))"

definition sensor_match :: "string \<Rightarrow> (string \<times> string) option" where
  "sensor_match s =
     (case take_number s of
        None \<Rightarrow> None
      | Some (m1, rest) \<Rightarrow>
          (case rest of
             [] \<Rightarrow> None
           | comma # after_comma \<Rightarrow>
               if comma \<noteq> CHR '','' then None
               else (case take_number (dropWhile is_space after_comma) of
                       None \<Rightarrow> None
                     | Some (m2, rest2) \<Rightarrow> if rest2 = [] then Some (m1, m2) else None)))"

text \<open>\<open>parseFloat\<close> on a text the pattern \<open>\d+\.\d+\<close> has matched, as a real number.\<close>

definition parse_digits :: "string \<Rightarrow> nat" where
  "parse_digits s = foldl (\<lambda>acc ch. 10 * acc + (of_char ch - 48)) 0 s"

definition parseFloat :: "string \<Rightarrow> real" where
  "parseFloat s =
     (let whole = takeWhile is_digit s; frac = drop (length whole + 1) s
      in real (parse_digits whole) + real (parse_digits frac) / 10 ^ length frac)"

definition trim :: "string \<Rightarrow> string" where
  "trim s = rev (dropWhile is_space (rev (dropWhile is_space s)))"

text \<open>\<open>s.split('\n')\<close>: never empty; its last element is the text after the last line break.\<close>

fun split_lines :: "string \<Rightarrow> string list" where
  "split_lines [] = [[]]"
| "split_lines (ch # s) =
     (if ch = CHR 0x0A then [] # split_lines s
      else (case split_lines s of
              [] \<Rightarrow> [[ch]]
            | line # lines \<Rightarrow> (ch # line) # lines))"

subsection \<open>Inbound data\<close>

datatype emitted = DataEvent real real | ResponseEvent string

definition processResponse :: "link \<Rightarrow> string \<Rightarrow> link \<times> emitted list" where
  "processResponse l response =
     (if response = [] then (l, [])
      else (let l1 = l\<lparr>isBusy := False\<rparr>
            in case sensor_match response of
                 Some (m1, m2) \<Rightarrow>
                   (l1, [DataEvent (parseFloat m1) (parseFloat m2), ResponseEvent response])
               | None \<Rightarrow> (l1, [ResponseEvent response])))"

fun process_messages :: "link \<Rightarrow> string list \<Rightarrow> link \<times> emitted list" where
  "process_messages l [] = (l, [])"
| "process_messages l (message # messages) =
     (let r1 = processResponse l (trim message);
          r2 = process_messages (fst r1) messages
      in (fst r2, snd r1 @ snd r2))"

text \<open>The \<open>data\<close> listener of \<open>setupDataListener\<close>, given a chunk of received text.\<close>

definition on_data :: "link \<Rightarrow> string \<Rightarrow> link \<times> emitted list" where
  "on_data l received =
     (let messages = split_lines (buffer l @ received)
      in process_messages (l\<lparr>buffer := last messages\<rparr>) (butlast messages))"

text \<open>The complete lines a chunk brings, as the listener hands them on.\<close>

definition complete_lines :: "link \<Rightarrow> string \<Rightarrow> string list" where
  "complete_lines l received = map trim (butlast (split_lines (buffer l @ received)))"

subsection \<open>Sending a command\<close>

definition MAX_BUSY_WAIT :: nat where
  "MAX_BUSY_WAIT = 1000"

text \<open>
  The waiting loop of \<open>sendCommand\<close>. Other code runs while the loop sleeps;
  \<open>busy_after t\<close> is the value of the busy flag the loop finds when it has slept
  \<open>t\<close> milliseconds in all. The result is the flag and the time slept when the loop is left.
\<close>

function busy_wait :: "(nat \<Rightarrow> bool) \<Rightarrow> bool \<Rightarrow> nat \<Rightarrow> bool \<times> nat" where
  "busy_wait busy_after busy busyWaitTime =
     (if busy
      then (let waited = busyWaitTime + 10
            in if waited \<ge> MAX_BUSY_WAIT then (False, waited)
               else busy_wait busy_after (busy_after waited) waited)
      else (busy, busyWaitTime))"
  by pat_completeness auto
termination
  by (relation "measure (\<lambda>(busy_after, busy, t). MAX_BUSY_WAIT - t)")
     (auto simp: MAX_BUSY_WAIT_def)

declare busy_wait.simps [simp del]

text \<open>
  What a call of \<open>sendCommand\<close> leaves: the link, the time waited for the busy flag, the
  delay of the watchdog timer it has set (if any), the text written, and the error the
  returned promise is rejected with (if any). Without a port handle the call of
  \<open>this.port.write\<close> throws (\<open>PortHandleMissing\<close>); with one, \<open>write_ok\<close> says
  whether the callback of the write reports success or an error (a write whose callback is
  never called is not modelled).
\<close>

record send_result =
  sent_link :: link
  sent_waited :: nat
  sent_watchdog :: "nat option"
  sent_text :: "string option"
  sent_error :: "link_error option"

definition sendCommand :: "(nat \<Rightarrow> bool) \<Rightarrow> bool \<Rightarrow> link \<Rightarrow> string \<Rightarrow> send_result" where
  "sendCommand busy_after write_ok l command =
     (let waited = snd (busy_wait busy_after (isBusy l) 0);
          l1 = l\<lparr>isBusy := True\<rparr>
      in case port l1 of
           None \<Rightarrow>
             \<lparr>sent_link = l1, sent_waited = waited, sent_watchdog = None,
              sent_text = None, sent_error = Some PortHandleMissing\<rparr>
         | Some p \<Rightarrow>
             if write_ok
             then \<lparr>sent_link = l1, sent_waited = waited, sent_watchdog = Some 100,
                   sent_text = Some (command @ [CHR 0x0A]), sent_error = None\<rparr>
             else \<lparr>sent_link = l1\<lparr>isBusy := False\<rparr>, sent_waited = waited,
                   sent_watchdog = None, sent_text = None,
                   sent_error = Some FailedToSendCommand\<rparr>)"

text \<open>The callback of the watchdog timer.\<close>

definition watchdog_fire :: "link \<Rightarrow> link" where
  "watchdog_fire l = (if isBusy l then l\<lparr>isBusy := False\<rparr> else l)"

text \<open>
  The link some time after \<open>sendCommand\<close> has called back. \<open>arrivals\<close> are the complete
  lines the data listener hands to \<open>processResponse\<close> afterwards, each with the time in
  milliseconds since the callback of the write. \<open>link_after r arrivals T\<close> is the link
  \<open>T\<close> milliseconds after that callback: the lines that have arrived by then have been
  processed, and the callback of the watchdog has run in between if a watchdog was set and
  its delay has passed.
\<close>

fun deliver :: "link \<Rightarrow> string list \<Rightarrow> link" where
  "deliver l [] = l"
| "deliver l (response # later) = deliver (fst (processResponse l response)) later"

definition link_after :: "send_result \<Rightarrow> (nat \<times> string) list \<Rightarrow> nat \<Rightarrow> link" where
  "link_after r arrivals T =
     (case sent_watchdog r of
        None \<Rightarrow> deliver (sent_link r) (map snd (filter (\<lambda>a. fst a \<le> T) arrivals))
      | Some delay \<Rightarrow>
          if T < delay
          then deliver (sent_link r) (map snd (filter (\<lambda>a. fst a \<le> T) arrivals))
          else deliver
                 (watchdog_fire
                    (deliver (sent_link r) (map snd (filter (\<lambda>a. fst a < delay) arrivals))))
                 (map snd (filter (\<lambda>a. delay \<le> fst a \<and> fst a \<le> T) arrivals)))"

subsection \<open>Reading the sensors\<close>

text \<open>
  What arrives while a read is outstanding, with the time in milliseconds since the read's
  timer was set: a complete line, handed to \<open>processResponse\<close>, or an \<open>error\<close> event of
  the link. The timer fires at 5000 ms unless a handler has cleared it.
\<close>

datatype inbound = Line string | PortFailure

definition handleResponse :: "string \<Rightarrow> link_error + real \<times> real" where
  "handleResponse data =
     (case sensor_match data of
        Some (m1, m2) \<Rightarrow> Inr (parseFloat m1, parseFloat m2)
      | None \<Rightarrow> Inl InvalidSensorDataFormat)"

fun first_response :: "emitted list \<Rightarrow> string option" where
  "first_response [] = None"
| "first_response (ResponseEvent r # es) = Some r"
| "first_response (e # es) = first_response es"

fun await_response :: "link \<Rightarrow> (nat \<times> inbound) list \<Rightarrow> link \<times> (link_error + real \<times> real)" where
  "await_response l [] = (l\<lparr>isBusy := False\<rparr>, Inl SensorReadTimeout)"
| "await_response l ((t, ev) # later) =
     (if t \<ge> 5000 then (l\<lparr>isBusy := False\<rparr>, Inl SensorReadTimeout)
      else (case ev of
              PortFailure \<Rightarrow> (l, Inl PortError)
            | Line response \<Rightarrow>
                (let res = processResponse l response
                 in case first_response (snd res) of
                      Some data \<Rightarrow> (fst res, handleResponse data)
                    | None \<Rightarrow> await_response (fst res) later)))"

definition ReadSensor ::
  "(nat \<Rightarrow> bool) \<Rightarrow> bool \<Rightarrow> link \<Rightarrow> (nat \<times> inbound) list \<Rightarrow> link \<times> (link_error + real \<times> real)" where
  "ReadSensor busy_after write_ok l arrivals =
     (let sent = sendCommand busy_after write_ok l ''s''
      in case sent_error sent of
           Some e \<Rightarrow> (sent_link sent, Inl e)
         | None \<Rightarrow> await_response (sent_link sent) arrivals)"

subsection \<open>Opening the link\<close>

text \<open>
  One pass of \<open>initialize\<close> meets: the ports \<open>SerialPort.list()\<close> reports, the answers
  the operator gives to the prompts of \<open>selectPort\<close> (a port number and the answer to the
  confirmation that follows a valid number), and whether the port opens.
\<close>

record attempt =
  listed :: "string list"
  answers :: "(int \<times> bool) list"
  openOk :: bool

text \<open>The prompt loop of \<open>selectPort\<close>; \<open>None\<close> when the answers end before one is confirmed.\<close>

fun ask_user :: "string list \<Rightarrow> (int \<times> bool) list \<Rightarrow> string option" where
  "ask_user ports [] = None"
| "ask_user ports ((portNumber, confirmed) # later) =
     (let index = portNumber - 1
      in if index \<ge> 0 \<and> index < int (length ports)
         then (if confirmed then Some (ports ! nat index) else ask_user ports later)
         else ask_user ports later)"

definition selectPort :: "string option \<Rightarrow> attempt \<Rightarrow> (string option \<times> (link_error + string)) option" where
  "selectPort savedPortPath a =
     (let reuse = (case savedPortPath of
                     None \<Rightarrow> False
                   | Some saved \<Rightarrow> saved \<noteq> [] \<and> saved \<in> set (listed a));
          saved1 = (case savedPortPath of
                      None \<Rightarrow> None
                    | Some saved \<Rightarrow> if saved \<noteq> [] then None else Some saved)
      in if reuse then Some (savedPortPath, Inr (the savedPortPath))
         else if listed a = [] then Some (saved1, Inl NoSerialPortsFound)
         else (case ask_user (listed a) (answers a) of
                 None \<Rightarrow> None
               | Some selected \<Rightarrow> Some (Some selected, Inr selected)))"

definition close :: "link \<Rightarrow> link" where
  "close l =
     (case port l of
        None \<Rightarrow> l
      | Some p \<Rightarrow> l\<lparr>port := None, portPath := None, isBusy := False\<rparr>)"

text \<open>The first statement of \<open>initialize\<close>: a port that is open is closed.\<close>

definition close_if_open :: "link \<Rightarrow> link" where
  "close_if_open l =
     (case port l of
        None \<Rightarrow> l
      | Some p \<Rightarrow> if isOpen p then close l else l)"

text \<open>
  \<open>initialize\<close>, with the passes it makes taken from a list; \<open>None\<close> when the list or the
  operator's answers end before the call has returned. The result is the link,
  \<open>savedPortPath\<close>, the value returned or the error thrown, and the passes left.
\<close>

fun initialize ::
  "link \<Rightarrow> string option \<Rightarrow> attempt list \<Rightarrow>
     (link \<times> string option \<times> (link_error + bool) \<times> attempt list) option" where
  "initialize l savedPortPath [] = None"
| "initialize l savedPortPath (a # later) =
     (let l0 = close_if_open l
      in case selectPort savedPortPath a of
           None \<Rightarrow> None
         | Some (saved1, Inl e) \<Rightarrow>
             if saved1 = portPath l0 then initialize l0 None later
             else Some (l0, saved1, Inl e, later)
         | Some (saved1, Inr selected) \<Rightarrow>
             (let l1 = l0\<lparr>portPath := Some selected,
                         port := Some \<lparr>port_path = selected, isOpen = False\<rparr>\<rparr>
              in if openOk a
                 then Some (l1\<lparr>port := Some \<lparr>port_path = selected, isOpen = True\<rparr>, buffer := []\<rparr>,
                            saved1, Inr True, later)
                 else if saved1 = portPath l1 then initialize l1 None later
                 else Some (l1, saved1, Inl FailedToOpenPort, later)))"

section \<open>Properties of the double arithmetic\<close>

lemma two_powr_shift:
  "2 ^ nat (e1 - e) * 2 powr real_of_int e = (2::real) powr real_of_int e1" if "e \<le> e1"
proof -
  have "2 ^ nat (e1 - e) = (2::real) powr real (nat (e1 - e))"
    by (simp add: powr_realpow)
  also have "real (nat (e1 - e)) = real_of_int (e1 - e)"
    using that by simp
  finally show ?thesis
    by (simp add: powr_add [symmetric])
qed

text \<open>
  A difference that fits into 53 bits is exact; another one is rounded, as is that of the
  doubles nearest to 0.6 and 0.1, which is the double 0.5.
\<close>

lemma fsub_exact:
  assumes "\<bar>m1 * 2 ^ nat (e1 - min e1 e2) - m2 * 2 ^ nat (e2 - min e1 e2)\<bar> < 2 ^ 53"
  shows "dval (fsub (Finite m1 e1) (Finite m2 e2)) = dval (Finite m1 e1) - dval (Finite m2 e2)"
proof -
  let ?e = "min e1 e2"
  have "dval (fsub (Finite m1 e1) (Finite m2 e2)) =
        real_of_int (m1 * 2 ^ nat (e1 - ?e) - m2 * 2 ^ nat (e2 - ?e)) * 2 powr real_of_int ?e"
    using assms by (simp add: round_to_double_def Let_def)
  also have "\<dots> = real_of_int m1 * (2 ^ nat (e1 - ?e) * 2 powr real_of_int ?e) -
                   real_of_int m2 * (2 ^ nat (e2 - ?e) * 2 powr real_of_int ?e)"
    by (simp add: algebra_simps)
  also have "\<dots> = real_of_int m1 * 2 powr real_of_int e1 - real_of_int m2 * 2 powr real_of_int e2"
    by (simp add: two_powr_shift)
  finally show ?thesis by simp
qed

lemma fsub_rounds:
  "fsub (Finite 5404319552844595 (-53)) (Finite 3602879701896397 (-55)) = Finite (2 ^ 52) (-53)"
  "fsub (Finite 3602879701896397 (-55)) (Finite 5404319552844595 (-53)) = Finite (- (2 ^ 52)) (-53)"
  "dge (Finite (2 ^ 52) (-53)) (Finite 1 (-1))"
  by (simp_all add: round_to_double_def Let_def compute_bitlen)

section \<open>Properties of the change detector\<close>

lemma new_detector_wf: "detector_wf new_detector"
  by (simp add: detector_wf_def new_detector_def)

lemma length_two_cases:
  assumes "length xs = 2"
  obtains a b where "xs = [a, b]"
proof -
  from assms obtain a ys where xs: "xs = a # ys" by (cases xs) auto
  with assms obtain b where "ys = [b]" by (cases ys) auto
  with xs show ?thesis using that by simp
qed

lemma detectStateChange_step:
  assumes wf: "detector_wf d" and i: "i < 2"
    and res: "detectStateChange d v1 v2 = (d', ch)"
  shows "lastValue d' ! i = Some (channel i (v1, v2))"
    and "lastValue d ! i = None \<Longrightarrow> \<not> ch ! i \<and> isOn d' ! i = isOn d ! i"
    and "lastValue d ! i = Some prev \<Longrightarrow>
           ch ! i \<and>
           isOn d' ! i = dge (fabs (fsub (channel i (v1, v2)) prev)) (toNumber (threshold d ! i))"
    and "threshold d' = threshold d" and "wasOn d' = wasOn d"
    and "blinkCount d' = blinkCount d" and "detector_wf d'" and "length ch = 2"
proof -
  from wf obtain l0 l1 where lv: "lastValue d = [l0, l1]"
    by (auto simp: detector_wf_def elim: length_two_cases)
  from wf obtain o0 o1 where on: "isOn d = [o0, o1]"
    by (auto simp: detector_wf_def elim: length_two_cases)
  from i have i01: "i = 0 \<or> i = 1" by auto
  show "lastValue d' ! i = Some (channel i (v1, v2))"
    using res i01 lv on
    by (auto simp: detectStateChange_def channel_def Let_def split: option.splits)
  show "lastValue d ! i = None \<Longrightarrow> \<not> ch ! i \<and> isOn d' ! i = isOn d ! i"
    using res i01 lv on
    by (auto simp: detectStateChange_def channel_def Let_def split: option.splits)
  show "lastValue d ! i = Some prev \<Longrightarrow>
           ch ! i \<and>
           isOn d' ! i = dge (fabs (fsub (channel i (v1, v2)) prev)) (toNumber (threshold d ! i))"
    using res i01 lv on
    by (auto simp: detectStateChange_def channel_def Let_def split: option.splits)
  show "threshold d' = threshold d" "wasOn d' = wasOn d" "blinkCount d' = blinkCount d"
    using res by (auto simp: detectStateChange_def Let_def split: option.splits)
  show "detector_wf d'"
    using res wf by (auto simp: detectStateChange_def detector_wf_def Let_def split: option.splits)
  show "length ch = 2"
    using res by (auto simp: detectStateChange_def Let_def split: option.splits)
qed

lemma length_detect_all: "length (detect_all d rs) = length rs"
  by (induction rs arbitrary: d) (auto simp: Let_def)

lemma state_before_Suc:
  "state_before d (r # rs) (Suc k) = state_before (fst (detectStateChange d (fst r) (snd r))) rs k"
  by (cases k) (auto simp: state_before_def Let_def)

lemma detect_all_channel:
  assumes "detector_wf d" and "i < 2" and "k < length rs"
  shows "lastValue (fst (detect_all d rs ! k)) ! i = Some (channel i (rs ! k)) \<and>
         threshold (state_before d rs k) = threshold d \<and>
         detector_wf (state_before d rs k) \<and>
         detectStateChange (state_before d rs k) (fst (rs ! k)) (snd (rs ! k)) = detect_all d rs ! k \<and>
         (0 < k \<longrightarrow> lastValue (state_before d rs k) ! i = Some (channel i (rs ! (k - 1))))"
  using assms
proof (induction rs arbitrary: d k)
  case Nil
  then show ?case by simp
next
  case (Cons r rs)
  obtain d1 ch1 where step: "detectStateChange d (fst r) (snd r) = (d1, ch1)"
    by (cases "detectStateChange d (fst r) (snd r)")
  note facts = detectStateChange_step [OF Cons.prems(1) Cons.prems(2) step]
  show ?case
  proof (cases k)
    case 0
    with step facts(1) Cons.prems show ?thesis
      by (simp add: state_before_def Let_def)
  next
    case (Suc k')
    with Cons.prems have k': "k' < length rs" by simp
    have sb: "state_before d (r # rs) k = state_before d1 rs k'"
      using Suc step by (simp add: state_before_Suc)
    have nth: "detect_all d (r # rs) ! k = detect_all d1 rs ! k'"
      using Suc step by (simp add: Let_def)
    note ih = Cons.IH [OF facts(7) Cons.prems(2) k']
    have prev: "lastValue (state_before d1 rs k') ! i = Some (channel i ((r # rs) ! (k - 1)))"
    proof (cases k')
      case 0
      then show ?thesis using facts(1) Suc by (simp add: state_before_def)
    next
      case (Suc k'')
      then show ?thesis using ih \<open>k = Suc k'\<close> by simp
    qed
    show ?thesis
      using ih sb nth prev facts(4) Suc by simp
  qed
qed

text \<open>
  C1. For every sequence of readings fed to \<open>detectStateChange\<close> and for each of the two
  channels: every call stores the current magnitude as the channel's previous one; a call
  that finds no stored magnitude for the channel (which can only be the first call) reports
  the channel as not evaluated and leaves its on/off state as it was; every later call
  finds the magnitude of the reading before it, reports the channel as evaluated and sets
  the on/off state to true iff the absolute difference to that magnitude, as the double
  subtraction computes it, is at least the channel's threshold.
\<close>

theorem detectStateChange_first_baseline_then_threshold:
  assumes "detector_wf d" and "i < 2" and "k < length rs" and "threshold d ! i = Some t"
  shows "lastValue (fst (detect_all d rs ! k)) ! i = Some (channel i (rs ! k)) \<and>
         (0 < k \<longrightarrow> lastValue (state_before d rs k) ! i = Some (channel i (rs ! (k - 1)))) \<and>
         (case lastValue (state_before d rs k) ! i of
            None \<Rightarrow> k = 0 \<and> \<not> snd (detect_all d rs ! k) ! i \<and>
                    isOn (fst (detect_all d rs ! k)) ! i = isOn d ! i
          | Some prev \<Rightarrow> snd (detect_all d rs ! k) ! i \<and>
                    isOn (fst (detect_all d rs ! k)) ! i =
                      dge (fabs (fsub (channel i (rs ! k)) prev)) t)"
proof -
  let ?b = "state_before d rs k"
  obtain a ch where res: "detect_all d rs ! k = (a, ch)"
    by (cases "detect_all d rs ! k")
  from detect_all_channel [OF assms(1-3)] res
  have lv: "lastValue a ! i = Some (channel i (rs ! k))"
    and thr: "threshold ?b = threshold d" and wf: "detector_wf ?b"
    and step: "detectStateChange ?b (fst (rs ! k)) (snd (rs ! k)) = (a, ch)"
    and prev: "0 < k \<longrightarrow> lastValue ?b ! i = Some (channel i (rs ! (k - 1)))"
    by simp_all
  note facts = detectStateChange_step [OF wf assms(2) step]
  show ?thesis
  proof (cases "lastValue ?b ! i")
    case None
    with prev have k0: "k = 0" by auto
    then have "?b = d" by (simp add: state_before_def)
    with None facts(2) k0 lv res show ?thesis by simp
  next
    case (Some p)
    from facts(3) [OF Some] thr assms(4) lv prev res Some show ?thesis by simp
  qed
qed

theorem detectStateChange_first_baseline_then_threshold_witness:
  "detector_wf (new_detector\<lparr>threshold := [Some (Finite 1 (-1)), Some (Finite 1 (-1))]\<rparr>) \<and>
   lastValue (state_before (new_detector\<lparr>threshold := [Some (Finite 1 (-1)), Some (Finite 1 (-1))]\<rparr>)
      [(Finite 5404319552844595 (-53), Finite 1 0),
       (Finite 3602879701896397 (-55), Finite 1 0)] 1) ! 0
     = Some (Finite 5404319552844595 (-53)) \<and>
   snd (detect_all (new_detector\<lparr>threshold := [Some (Finite 1 (-1)), Some (Finite 1 (-1))]\<rparr>)
      [(Finite 5404319552844595 (-53), Finite 1 0),
       (Finite 3602879701896397 (-55), Finite 1 0)] ! 1) ! 0 \<and>
   isOn (fst (detect_all (new_detector\<lparr>threshold := [Some (Finite 1 (-1)), Some (Finite 1 (-1))]\<rparr>)
      [(Finite 5404319552844595 (-53), Finite 1 0),
       (Finite 3602879701896397 (-55), Finite 1 0)] ! 1)) ! 0"
proof -
  let ?d = "new_detector\<lparr>threshold := [Some (Finite 1 (-1)), Some (Finite 1 (-1))]\<rparr>"
  let ?rs = "[(Finite 5404319552844595 (-53), Finite 1 0),
              (Finite 3602879701896397 (-55), Finite 1 0)]"
  have wf: "detector_wf ?d" by (simp add: detector_wf_def new_detector_def)
  have thr: "threshold ?d ! 0 = Some (Finite 1 (-1))" by simp
  have k: "(1::nat) < length ?rs" by simp
  have b1: "lastValue (state_before ?d ?rs 1) ! 0 = Some (Finite 5404319552844595 (-53))"
    by (simp add: state_before_def new_detector_def detectStateChange_def Let_def)
  have ch: "channel 0 (?rs ! 1) = Finite 3602879701896397 (-55)" by (simp add: channel_def)
  from detectStateChange_first_baseline_then_threshold [OF wf _ k thr]
  have "snd (detect_all ?d ?rs ! 1) ! 0 \<and> isOn (fst (detect_all ?d ?rs ! 1)) ! 0"
    unfolding b1 ch by (simp add: round_to_double_def Let_def compute_bitlen)
  with wf b1 show ?thesis by blast
qed

section \<open>Properties of the polling loop\<close>

lemma detectStateChange_keeps:
  "wasOn (fst (detectStateChange d v1 v2)) = wasOn d"
  "blinkCount (fst (detectStateChange d v1 v2)) = blinkCount d"
  by (auto simp: detectStateChange_def Let_def split: option.splits)

lemma channel_pass_fields:
  "testBlinkCount (channel_pass ch r t i) =
     testBlinkCount t +
     (if ch ! i \<and> isOn (flickerDetector t) ! i \<and> \<not> wasOn (flickerDetector t) ! i then 1 else 0)"
  "blinkCount (flickerDetector (channel_pass ch r t i)) = blinkCount (flickerDetector t)"
  "isOn (flickerDetector (channel_pass ch r t i)) = isOn (flickerDetector t)"
  "wasOn (flickerDetector (channel_pass ch r t i)) =
     (if ch ! i then (wasOn (flickerDetector t))[i := isOn (flickerDetector t) ! i]
      else wasOn (flickerDetector t))"
  by (auto simp: channel_pass_def Let_def)

lemma new_blink_test_between_cycles: "between_cycles (new_blink_test dir)"
  by (simp add: between_cycles_def new_blink_test_def new_detector_def detector_wf_def)

lemma unevaluated_keeps_state:
  assumes "detector_wf d" and "i < 2" and "detectStateChange d v1 v2 = (d', ch)"
    and "\<not> ch ! i"
  shows "isOn d' ! i = isOn d ! i"
proof (cases "lastValue d ! i")
  case None
  from detectStateChange_step(2) [OF assms(1-3) None] show ?thesis by simp
next
  case (Some prev)
  from detectStateChange_step(3) [OF assms(1-3) Some] assms(4) show ?thesis by simp
qed

lemma poll_cycle_isOn:
  "isOn (flickerDetector (poll_cycle t r)) =
     isOn (fst (detectStateChange (flickerDetector t) (fst r) (snd r)))"
  by (simp add: poll_cycle_def Let_def channel_pass_fields)

lemma poll_cycle_count:
  assumes "between_cycles t"
  shows "testBlinkCount (poll_cycle t r) =
     testBlinkCount t + (if rising_edge t r 0 then 1 else 0) + (if rising_edge t r 1 then 1 else 0)"
proof -
  let ?d = "flickerDetector t"
  obtain d1 ch where res: "detectStateChange ?d (fst r) (snd r) = (d1, ch)"
    by (cases "detectStateChange ?d (fst r) (snd r)")
  from assms have wf: "detector_wf ?d" and was: "wasOn ?d = isOn ?d"
    by (simp_all add: between_cycles_def)
  have w1: "wasOn d1 = isOn ?d"
    using detectStateChange_keeps(1) [of ?d "fst r" "snd r"] res was by simp
  have u0: "\<not> ch ! 0 \<Longrightarrow> isOn d1 ! 0 = isOn ?d ! 0"
    using unevaluated_keeps_state [OF wf _ res, of 0] by simp
  have u1: "\<not> ch ! 1 \<Longrightarrow> isOn d1 ! 1 = isOn ?d ! 1"
    using unevaluated_keeps_state [OF wf _ res, of 1] by simp
  have r0: "rising_edge t r 0 \<longleftrightarrow> ch ! 0 \<and> isOn d1 ! 0 \<and> \<not> wasOn d1 ! 0"
    using u0 by (auto simp: rising_edge_def poll_cycle_isOn res w1)
  have r1: "rising_edge t r 1 \<longleftrightarrow> ch ! 1 \<and> isOn d1 ! 1 \<and> \<not> wasOn d1 ! 1"
    using u1 by (auto simp: rising_edge_def poll_cycle_isOn res w1)
  show ?thesis
    unfolding r0 r1
    by (simp add: poll_cycle_def Let_def res channel_pass_fields)
qed

lemma poll_cycle_between_cycles:
  assumes "between_cycles t"
  shows "between_cycles (poll_cycle t r)"
proof -
  let ?d = "flickerDetector t"
  obtain d1 ch where res: "detectStateChange ?d (fst r) (snd r) = (d1, ch)"
    by (cases "detectStateChange ?d (fst r) (snd r)")
  from assms have wf: "detector_wf ?d" and was: "wasOn ?d = isOn ?d"
    by (simp_all add: between_cycles_def)
  have w1: "wasOn d1 = isOn ?d"
    using detectStateChange_keeps(1) [of ?d "fst r" "snd r"] res was by simp
  have wf1: "detector_wf d1"
    using detectStateChange_step(7) [OF wf _ res, of 0] by simp
  from wf obtain a0 a1 where a: "isOn ?d = [a0, a1]"
    by (auto simp: detector_wf_def elim: length_two_cases)
  from wf1 obtain b0 b1 where b: "isOn d1 = [b0, b1]"
    by (auto simp: detector_wf_def elim: length_two_cases)
  have u0: "\<not> ch ! 0 \<Longrightarrow> b0 = a0"
    using unevaluated_keeps_state [OF wf _ res, of 0] a b by simp
  have u1: "\<not> ch ! 1 \<Longrightarrow> b1 = a1"
    using unevaluated_keeps_state [OF wf _ res, of 1] a b by simp
  have "wasOn (flickerDetector (poll_cycle t r)) = isOn d1"
    using u0 u1 by (auto simp: poll_cycle_def Let_def res channel_pass_fields w1 a b)
  moreover have "isOn (flickerDetector (poll_cycle t r)) = isOn d1"
    by (simp add: poll_cycle_isOn res)
  moreover have "detector_wf (flickerDetector (poll_cycle t r))"
    using wf1 by (auto simp: detector_wf_def poll_cycle_def Let_def res channel_pass_def)
  ultimately show ?thesis by (simp add: between_cycles_def)
qed

lemma poll_cycle_blinkCount:
  "blinkCount (flickerDetector (poll_cycle t r)) = blinkCount (flickerDetector t)"
  by (simp add: poll_cycle_def Let_def channel_pass_fields detectStateChange_keeps)

lemma poll_cycles_count:
  assumes "between_cycles t"
  shows "testBlinkCount (poll_cycles t rs) = testBlinkCount t + rising_total t rs"
  using assms unfolding poll_cycles_def
  by (induction rs arbitrary: t) (simp_all add: poll_cycle_count poll_cycle_between_cycles)

lemma poll_cycles_between_cycles:
  assumes "between_cycles t"
  shows "between_cycles (poll_cycles t rs)"
  using assms unfolding poll_cycles_def
  by (induction rs arbitrary: t) (simp_all add: poll_cycle_between_cycles)

lemma poll_cycles_blinkCount:
  "blinkCount (flickerDetector (poll_cycles t rs)) = blinkCount (flickerDetector t)"
  unfolding poll_cycles_def
  by (induction rs arbitrary: t) (simp_all add: poll_cycle_blinkCount)

lemma poll_cycles_append:
  "poll_cycles t (rs @ [r]) = poll_cycle (poll_cycles t rs) r"
  by (simp add: poll_cycles_def)

text \<open>
  C2, as the code has it. The polling loop keeps one event counter, shared by the two
  channels. Between cycles its record of the previous state is the on/off state itself, so
  a cycle adds one to the counter for each channel whose on/off state was off at the end
  of the cycle before and is on at the end of this one (so 0, 1 or 2), and nothing for a
  channel that stays on, stays off or goes off; over a sequence of cycles the counter grows
  by the number of these rising edges and never decreases. The per-channel counters of
  the detector are not touched by the loop: only \<open>logBlink\<close> changes them, adding exactly
  one to the counter of the channel it is given.
\<close>

theorem poll_cycle_shared_counter:
  assumes "between_cycles t"
  shows "testBlinkCount (poll_cycle t r) =
           testBlinkCount t + (if rising_edge t r 0 then 1 else 0) +
           (if rising_edge t r 1 then 1 else 0) \<and>
         between_cycles (poll_cycle t r) \<and>
         testBlinkCount (poll_cycles t rs) = testBlinkCount t + rising_total t rs \<and>
         testBlinkCount (poll_cycles t rs) \<le> testBlinkCount (poll_cycles t (rs @ [r])) \<and>
         blinkCount (flickerDetector (poll_cycles t rs)) = blinkCount (flickerDetector t) \<and>
         (i < length (blinkCount d) \<longrightarrow>
            blinkCount (logBlink d i) ! i = blinkCount d ! i + 1 \<and>
            (\<forall>j. j \<noteq> i \<longrightarrow> blinkCount (logBlink d i) ! j = blinkCount d ! j))"
proof -
  have "testBlinkCount (poll_cycles t rs) \<le> testBlinkCount (poll_cycles t (rs @ [r]))"
    using poll_cycle_count [OF poll_cycles_between_cycles [OF assms], of rs r]
    by (simp add: poll_cycles_append)
  then show ?thesis
    using assms
    by (simp add: poll_cycle_count poll_cycle_between_cycles poll_cycles_count
        poll_cycles_blinkCount logBlink_def)
qed

theorem poll_cycle_shared_counter_witness:
  "between_cycles ((new_blink_test ''videos'')
      \<lparr>flickerDetector := new_detector\<lparr>threshold := [Some (Finite 3 (-2)), Some (Finite 3 (-2))]\<rparr>\<rparr>) \<and>
   testBlinkCount (poll_cycles
      ((new_blink_test ''videos'')
         \<lparr>flickerDetector := new_detector\<lparr>threshold := [Some (Finite 3 (-2)), Some (Finite 3 (-2))]\<rparr>\<rparr>)
      [(Finite 1 0, Finite 1 0), (Finite 2 0, Finite 1 0), (Finite 3 0, Finite 1 0),
       (Finite 4 0, Finite 1 0)]) = 1"
proof -
  let ?t = "(new_blink_test ''videos'')
      \<lparr>flickerDetector := new_detector\<lparr>threshold := [Some (Finite 3 (-2)), Some (Finite 3 (-2))]\<rparr>\<rparr>"
  let ?rs = "[(Finite 1 0, Finite 1 0), (Finite 2 0, Finite 1 0), (Finite 3 0, Finite 1 0),
       (Finite 4 0, Finite 1 0)]"
  have bc: "between_cycles ?t"
    by (simp add: between_cycles_def new_blink_test_def new_detector_def detector_wf_def)
  have rt: "rising_total ?t ?rs = 1"
    by (simp add: rising_edge_def poll_cycle_def channel_pass_def detectStateChange_def
        new_blink_test_def new_detector_def Let_def round_to_double_def)
  have t0: "testBlinkCount ?t = 0" by (simp add: new_blink_test_def)
  from poll_cycle_shared_counter [OF bc, of _ ?rs] rt t0
  have "testBlinkCount (poll_cycles ?t ?rs) = 1" by simp
  with bc show ?thesis by simp
qed

text \<open>
  The claim as the specification words it fails: in the second of the cycles below both
  channels have a rising edge, the per-channel counters of the detector stay as they were,
  and the one counter the loop keeps grows by two.
\<close>

theorem per_channel_counter_counterexample:
  "rising_edge
     (poll_cycle ((new_blink_test ''videos'')
         \<lparr>flickerDetector := new_detector\<lparr>threshold := [Some (Finite 3 (-2)), Some (Finite 3 (-2))]\<rparr>\<rparr>)
       (Finite 1 0, Finite 1 0))
     (Finite 2 0, Finite 2 0) 0 \<and>
   blinkCount (flickerDetector (poll_cycles ((new_blink_test ''videos'')
         \<lparr>flickerDetector := new_detector\<lparr>threshold := [Some (Finite 3 (-2)), Some (Finite 3 (-2))]\<rparr>\<rparr>)
         [(Finite 1 0, Finite 1 0), (Finite 2 0, Finite 2 0)])) = [0, 0] \<and>
   testBlinkCount (poll_cycle ((new_blink_test ''videos'')
         \<lparr>flickerDetector := new_detector\<lparr>threshold := [Some (Finite 3 (-2)), Some (Finite 3 (-2))]\<rparr>\<rparr>)
       (Finite 1 0, Finite 1 0)) = 0 \<and>
   testBlinkCount (poll_cycles ((new_blink_test ''videos'')
         \<lparr>flickerDetector := new_detector\<lparr>threshold := [Some (Finite 3 (-2)), Some (Finite 3 (-2))]\<rparr>\<rparr>)
         [(Finite 1 0, Finite 1 0), (Finite 2 0, Finite 2 0)]) = 2"
  by (simp add: rising_edge_def poll_cycles_def poll_cycle_def channel_pass_def
      detectStateChange_def new_blink_test_def new_detector_def Let_def round_to_double_def)

section \<open>Properties of the background cleanup\<close>

lemma set_unlink_logged:
  "set (case unlinkSync fs p of Some fs' \<Rightarrow> fs' | None \<Rightarrow> fs) = set fs - {p}"
  by (auto simp: unlinkSync_def)

lemma cleanup_loop_queue:
  "fst (cleanup_loop blinks now rp q fs) = dropWhile (\<lambda>s. now - timestamp s > rp) q"
  by (induction q arbitrary: fs) auto

lemma cleanup_loop_files:
  "set (snd (cleanup_loop blinks now rp q fs)) =
     set fs - {path s |s. s \<in> set (takeWhile (\<lambda>s. now - timestamp s > rp) q) \<and> path s \<notin> set blinks}"
proof (induction q arbitrary: fs)
  case Nil
  then show ?case by simp
next
  case (Cons seg q)
  show ?case
  proof (cases "now - timestamp seg > rp")
    case True
    then show ?thesis
      using Cons.IH by (auto simp: set_unlink_logged)
  next
    case False
    then show ?thesis by simp
  qed
qed

lemma performCleanup_queue:
  "videoQueue (fst (performCleanup c now fs)) = dropWhile (aged c now) (videoQueue c)"
  by (simp add: performCleanup_def Let_def cleanup_loop_queue aged_def [abs_def] retentionPeriod_def)

lemma performCleanup_files:
  "set (snd (performCleanup c now fs)) =
     set fs - {path s |s. s \<in> set (takeWhile (aged c now) (videoQueue c)) \<and>
                          path s \<notin> set (segmentsWithBlinks c)}"
  by (simp add: performCleanup_def Let_def cleanup_loop_files aged_def [abs_def] retentionPeriod_def)

lemma performCleanup_fields:
  "segmentsWithBlinks (fst (performCleanup c now fs)) = segmentsWithBlinks c"
  "currentSegment (fst (performCleanup c now fs)) = currentSegment c"
  "outputDir (fst (performCleanup c now fs)) = outputDir c"
  "bufferProcess (fst (performCleanup c now fs)) = bufferProcess c"
  "encoderExited (fst (performCleanup c now fs)) = encoderExited c"
  "cleanupInterval (fst (performCleanup c now fs)) = cleanupInterval c"
  "segmentDuration (fst (performCleanup c now fs)) = segmentDuration c"
  "retentionWindow (fst (performCleanup c now fs)) = retentionWindow c"
  by (simp_all add: performCleanup_def Let_def)

text \<open>
  C3, as the code has it. The cleanup evaluates the queue strictly from the front and stops
  only at the first segment that is too young: it takes every segment of the longest aged
  prefix out of the queue, whether marked must-keep or not, and deletes the files of exactly
  those among them that are not marked. The file of a marked segment is never deleted, but
  the segment does leave the queue, and the loop goes on behind it. The must-keep set is
  left as it is.
\<close>

theorem performCleanup_removes_aged_prefix:
  "videoQueue (fst (performCleanup c now fs)) = dropWhile (aged c now) (videoQueue c) \<and>
   set (snd (performCleanup c now fs)) =
     set fs - {path s |s. s \<in> set (takeWhile (aged c now) (videoQueue c)) \<and>
                          path s \<notin> set (segmentsWithBlinks c)} \<and>
   segmentsWithBlinks (fst (performCleanup c now fs)) = segmentsWithBlinks c"
  by (simp add: performCleanup_queue performCleanup_files performCleanup_fields)

theorem performCleanup_removes_aged_prefix_witness:
  "videoQueue (fst (performCleanup
      ((new_controller ''videos'')
         \<lparr>segmentsWithBlinks := [(''videos'', ''a.mp4'')],
          videoQueue := [\<lparr>path = (''videos'', ''a.mp4''), timestamp = 0\<rparr>,
                         \<lparr>path = (''videos'', ''b.mp4''), timestamp = 10\<rparr>,
                         \<lparr>path = (''videos'', ''c.mp4''), timestamp = 50000\<rparr>]\<rparr>)
      100000 [(''videos'', ''a.mp4''), (''videos'', ''b.mp4''), (''videos'', ''c.mp4'')]))
   = [\<lparr>path = (''videos'', ''c.mp4''), timestamp = 50000\<rparr>]"
proof -
  let ?c = "(new_controller ''videos'')
         \<lparr>segmentsWithBlinks := [(''videos'', ''a.mp4'')],
          videoQueue := [\<lparr>path = (''videos'', ''a.mp4''), timestamp = 0\<rparr>,
                         \<lparr>path = (''videos'', ''b.mp4''), timestamp = 10\<rparr>,
                         \<lparr>path = (''videos'', ''c.mp4''), timestamp = 50000\<rparr>]\<rparr>"
  from performCleanup_removes_aged_prefix [of ?c 100000]
  show ?thesis
    by (simp add: aged_def retentionPeriod_def new_controller_def)
qed

text \<open>
  The claim as the specification words it fails: the segment at the front below is marked
  must-keep and aged. The cleanup does not stop at it and does not leave it in the queue:
  the queue is empty afterwards, and the file of the unmarked segment behind it is deleted.
\<close>

theorem cleanup_stops_at_must_keep_counterexample:
  "performCleanup
      ((new_controller ''videos'')
         \<lparr>segmentsWithBlinks := [(''videos'', ''a.mp4'')],
          videoQueue := [\<lparr>path = (''videos'', ''a.mp4''), timestamp = 0\<rparr>,
                         \<lparr>path = (''videos'', ''b.mp4''), timestamp = 10\<rparr>]\<rparr>)
      100000 [(''videos'', ''a.mp4''), (''videos'', ''b.mp4'')]
   = ((new_controller ''videos'')
         \<lparr>segmentsWithBlinks := [(''videos'', ''a.mp4'')], videoQueue := []\<rparr>,
      [(''videos'', ''a.mp4'')])"
  by (simp add: performCleanup_def new_controller_def unlinkSync_def Let_def)

section \<open>Properties of the shutdown\<close>

lemma aged_performCleanup:
  "aged (fst (performCleanup c now fs)) = aged c"
  by (simp add: aged_def [abs_def] retentionPeriod_def performCleanup_fields)

lemma drain_returns:
  assumes "k \<le> n" and "\<forall>s \<in> set (videoQueue c). aged c (clock n) s"
  shows "\<exists>c' fs' k'. drain clock k c fs = Some (c', fs', k') \<and> videoQueue c' = [] \<and>
           k' \<le> Suc n \<and> segmentsWithBlinks c' = segmentsWithBlinks c \<and>
           currentSegment c' = currentSegment c \<and> bufferProcess c' = bufferProcess c \<and>
           cleanupInterval c' = cleanupInterval c"
  using assms
proof (induction "n - k" arbitrary: k c fs)
  case 0
  then have kn: "k = n" by simp
  show ?case
  proof (cases "videoQueue c = []")
    case True
    then show ?thesis using 0 by (subst drain.simps) simp
  next
    case False
    let ?c1 = "fst (performCleanup c (clock k) fs)"
    have "dropWhile (aged c (clock k)) (videoQueue c) = []"
      using "0.prems"(2) kn by simp
    then have empty: "videoQueue ?c1 = []"
      by (simp add: performCleanup_queue)
    have "drain clock k c fs = drain clock (Suc k) ?c1 (snd (performCleanup c (clock k) fs))"
      using False by (subst drain.simps) simp
    also have "\<dots> = Some (?c1, snd (performCleanup c (clock k) fs), Suc k)"
      using empty by (subst drain.simps) simp
    finally show ?thesis
      using empty kn by (simp add: performCleanup_fields)
  qed
next
  case (Suc m)
  then have lt: "k < n" by simp
  show ?case
  proof (cases "videoQueue c = []")
    case True
    then show ?thesis using Suc.prems by (subst drain.simps) simp
  next
    case False
    let ?c1 = "fst (performCleanup c (clock k) fs)"
    let ?fs1 = "snd (performCleanup c (clock k) fs)"
    have step: "drain clock k c fs = drain clock (Suc k) ?c1 ?fs1"
      using False by (subst drain.simps) simp
    have "set (videoQueue ?c1) \<subseteq> set (videoQueue c)"
      by (simp add: performCleanup_queue set_dropWhileD subsetI)
    with Suc.prems(2) have all: "\<forall>s \<in> set (videoQueue ?c1). aged ?c1 (clock n) s"
      by (auto simp: aged_performCleanup)
    have "m = n - Suc k" using Suc.hyps(2) by simp
    from Suc.hyps(1) [OF this _ all, of ?fs1] lt
    show ?thesis
      unfolding step by (simp add: performCleanup_fields)
  qed
qed

lemma clock_passes_queue:
  assumes "\<forall>t. \<exists>n\<ge>k. t < clock n"
  shows "\<exists>n\<ge>k. \<forall>s \<in> set q. aged c (clock n) s"
proof -
  define t where "t = Max (insert 0 (timestamp ` set q)) + retentionPeriod c"
  from assms obtain n where n: "n \<ge> k" "t < clock n" by blast
  have "aged c (clock n) s" if "s \<in> set q" for s
  proof -
    from that have "timestamp s \<le> Max (insert 0 (timestamp ` set q))"
      by (intro Max_ge) auto
    with n(2) show ?thesis by (simp add: aged_def t_def)
  qed
  with n(1) show ?thesis by blast
qed

lemma stopRecording_result:
  assumes "\<forall>t. \<exists>n\<ge>k. t < clock n" and alive: "\<not> (bufferProcess c \<and> encoderExited c)"
  shows "\<exists>c' fs' k'. stopRecording clock k c fs = Some (c', fs', k') \<and> videoQueue c' = [] \<and>
           segmentsWithBlinks c' = segmentsWithBlinks c \<and>
           currentSegment c' = currentSegment c \<and> \<not> bufferProcess c' \<and> \<not> cleanupInterval c'"
proof -
  let ?res = "if bufferProcess c then (c\<lparr>bufferProcess := False\<rparr>, processVideos c fs) else (c, fs)"
  let ?c2 = "(fst ?res)\<lparr>cleanupInterval := False\<rparr>"
  have q: "videoQueue ?c2 = videoQueue c" and ag: "aged ?c2 = aged c"
    by (auto simp: aged_def [abs_def] retentionPeriod_def)
  from clock_passes_queue [OF assms(1), of "videoQueue c" c]
  obtain n where n: "k \<le> n" "\<forall>s \<in> set (videoQueue ?c2). aged ?c2 (clock n) s"
    unfolding q ag by blast
  have "stopRecording clock k c fs = drain clock k ?c2 (snd ?res)"
    using alive unfolding stopRecording_def Let_def by auto
  with drain_returns [where c = ?c2 and clock = clock and fs = "snd ?res", OF n]
  show ?thesis by auto
qed

lemma stopRecording_encoder_exited:
  "bufferProcess c \<Longrightarrow> encoderExited c \<Longrightarrow> stopRecording clock k c fs = None"
  by (simp add: stopRecording_def)

lemma drain_terminates:
  assumes "\<forall>t. \<exists>n\<ge>k. t < clock n"
  shows "\<exists>c' fs' k'. drain clock k c fs = Some (c', fs', k') \<and> videoQueue c' = []"
proof -
  from clock_passes_queue [OF assms, of "videoQueue c" c]
  obtain n where n: "k \<le> n" "\<forall>s \<in> set (videoQueue c). aged c (clock n) s" by blast
  from drain_returns [where c = c and clock = clock and fs = fs, OF n] show ?thesis by blast
qed

lemma clock_25000_unbounded: "\<forall>t. \<exists>n\<ge>(0::nat). t < int n * 25000"
proof
  fix t :: int
  have "t < int (nat t + 1) * 25000" by (cases "t < 0") auto
  then show "\<exists>n\<ge>(0::nat). t < int n * 25000" by blast
qed

text \<open>
  C8, as the code has it. The clock is taken to advance without bound (for every time, a
  later read of the clock shows a greater one). Then the last loop of \<open>stopRecording\<close>
  ends with an empty queue for every state of the queue, also with segments younger than
  the retention period in it, since every pass reads the clock anew. But \<open>stopRecording\<close>
  itself returns exactly when the encoder it has to stop has not exited before the call:
  after a recording whose encoder exited on its own it never returns, whatever the queue.
\<close>

theorem stopRecording_returns_unless_encoder_exited:
  assumes "\<forall>t. \<exists>n\<ge>k. t < clock n"
  shows "((\<exists>c' fs' k'. stopRecording clock k c fs = Some (c', fs', k') \<and> videoQueue c' = []) \<longleftrightarrow>
            \<not> (bufferProcess c \<and> encoderExited c)) \<and>
         (stopRecording clock k c fs = None \<longleftrightarrow> bufferProcess c \<and> encoderExited c) \<and>
         stopRecording clock k (encoder_exited (startContinuousRecording c)) fs = None \<and>
         (\<exists>c' fs' k'. drain clock k c fs = Some (c', fs', k') \<and> videoQueue c' = [])"
proof -
  have none: "stopRecording clock k c fs = None" if "bufferProcess c \<and> encoderExited c"
    using that by (simp add: stopRecording_encoder_exited)
  have some: "\<exists>c' fs' k'. stopRecording clock k c fs = Some (c', fs', k') \<and> videoQueue c' = []"
    if "\<not> (bufferProcess c \<and> encoderExited c)"
    using stopRecording_result [OF assms that, of fs] by blast
  have a: "(\<exists>c' fs' k'. stopRecording clock k c fs = Some (c', fs', k') \<and> videoQueue c' = []) \<longleftrightarrow>
            \<not> (bufferProcess c \<and> encoderExited c)"
    using none some by fastforce
  have b: "stopRecording clock k c fs = None \<longleftrightarrow> bufferProcess c \<and> encoderExited c"
    using none some by fastforce
  have c: "stopRecording clock k (encoder_exited (startContinuousRecording c)) fs = None"
    by (simp add: stopRecording_def encoder_exited_def startContinuousRecording_def)
  from a b c drain_terminates [OF assms, of c fs] show ?thesis by blast
qed

theorem stopRecording_returns_unless_encoder_exited_witness:
  "(\<forall>t. \<exists>n\<ge>(0::nat). t < int n * 25000) \<and>
   bufferProcess ((startContinuousRecording (new_controller ''videos''))
         \<lparr>currentSegment := Some (''videos'', ''b.mp4''),
          videoQueue := [\<lparr>path = (''videos'', ''a.mp4''), timestamp = 0\<rparr>]\<rparr>) \<and>
   \<not> encoderExited ((startContinuousRecording (new_controller ''videos''))
         \<lparr>currentSegment := Some (''videos'', ''b.mp4''),
          videoQueue := [\<lparr>path = (''videos'', ''a.mp4''), timestamp = 0\<rparr>]\<rparr>) \<and>
   (\<exists>c' fs' k'. stopRecording (\<lambda>n. int n * 25000) 0
      ((startContinuousRecording (new_controller ''videos''))
         \<lparr>currentSegment := Some (''videos'', ''b.mp4''),
          videoQueue := [\<lparr>path = (''videos'', ''a.mp4''), timestamp = 0\<rparr>]\<rparr>)
      [(''videos'', ''a.mp4''), (''videos'', ''b.mp4'')] = Some (c', fs', k') \<and>
      videoQueue c' = []) \<and>
   stopRecording (\<lambda>n. int n * 25000) 0
      ((startContinuousRecording (new_controller ''videos''))
         \<lparr>currentSegment := Some (''videos'', ''b.mp4''),
          videoQueue := [\<lparr>path = (''videos'', ''a.mp4''), timestamp = 0\<rparr>]\<rparr>)
      [(''videos'', ''a.mp4''), (''videos'', ''b.mp4'')] =
   Some ((new_controller ''videos'')\<lparr>currentSegment := Some (''videos'', ''b.mp4'')\<rparr>, [], 4)"
proof -
  let ?c = "(startContinuousRecording (new_controller ''videos''))
         \<lparr>currentSegment := Some (''videos'', ''b.mp4''),
          videoQueue := [\<lparr>path = (''videos'', ''a.mp4''), timestamp = 0\<rparr>]\<rparr>"
  have alive: "bufferProcess ?c" "\<not> encoderExited ?c"
    by (simp_all add: startContinuousRecording_def new_controller_def)
  have run: "stopRecording (\<lambda>n. int n * 25000) 0 ?c
      [(''videos'', ''a.mp4''), (''videos'', ''b.mp4'')] =
   Some ((new_controller ''videos'')\<lparr>currentSegment := Some (''videos'', ''b.mp4'')\<rparr>, [], 4)"
    by (simp add: stopRecording_def startContinuousRecording_def new_controller_def Let_def
        processVideos_def readdirSync_def endsWith_def path_join_def basename_def unlinkSync_def
        drain.simps performCleanup_def)
  from stopRecording_returns_unless_encoder_exited [OF clock_25000_unbounded,
      of ?c "[(''videos'', ''a.mp4''), (''videos'', ''b.mp4'')]"] alive
  have "\<exists>c' fs' k'. stopRecording (\<lambda>n. int n * 25000) 0 ?c
      [(''videos'', ''a.mp4''), (''videos'', ''b.mp4'')] = Some (c', fs', k') \<and> videoQueue c' = []"
    by blast
  with clock_25000_unbounded alive run show ?thesis by blast
qed

text \<open>
  The claim as the specification words it fails: a recording is started, the encoder exits
  on its own with one segment still queued, and \<open>stopRecording\<close> is called. It does not
  return.
\<close>

theorem stop_after_encoder_exit_counterexample:
  "bufferProcess (encoder_exited ((startContinuousRecording (new_controller ''videos''))
         \<lparr>currentSegment := Some (''videos'', ''b.mp4''),
          videoQueue := [\<lparr>path = (''videos'', ''a.mp4''), timestamp = 0\<rparr>]\<rparr>)) \<and>
   stopRecording (\<lambda>n. int n * 25000) 0
      (encoder_exited ((startContinuousRecording (new_controller ''videos''))
         \<lparr>currentSegment := Some (''videos'', ''b.mp4''),
          videoQueue := [\<lparr>path = (''videos'', ''a.mp4''), timestamp = 0\<rparr>]\<rparr>))
      [(''videos'', ''a.mp4''), (''videos'', ''b.mp4'')] = None"
  by (simp add: stopRecording_def encoder_exited_def startContinuousRecording_def
      new_controller_def)

text \<open>
  C7, as the code has it. When \<open>stopRecording\<close> returns, the queue is empty, but the
  must-keep set is the one the call started with: nothing in \<open>stopRecording\<close> clears it,
  and \<open>startContinuousRecording\<close> on the same controller carries it over. A new run
  starts without must-keep state because a new controller is constructed for it, with an
  empty must-keep set and an empty queue.
\<close>

theorem stopRecording_keeps_must_keep_set:
  assumes "\<forall>t. \<exists>n\<ge>k. t < clock n"
  shows "(\<forall>c' fs' k'. stopRecording clock k c fs = Some (c', fs', k') \<longrightarrow>
            videoQueue c' = [] \<and>
            segmentsWithBlinks c' = segmentsWithBlinks c \<and>
            segmentsWithBlinks (startContinuousRecording c') = segmentsWithBlinks c \<and>
            videoQueue (startContinuousRecording c') = []) \<and>
         (\<not> (bufferProcess c \<and> encoderExited c) \<longrightarrow>
            (\<exists>c' fs' k'. stopRecording clock k c fs = Some (c', fs', k') \<and> videoQueue c' = [] \<and>
               segmentsWithBlinks c' = segmentsWithBlinks c \<and>
               segmentsWithBlinks (startContinuousRecording c') = segmentsWithBlinks c \<and>
               videoQueue (startContinuousRecording c') = [])) \<and>
         segmentsWithBlinks (new_controller dir) = [] \<and> videoQueue (new_controller dir) = []"
proof -
  have ex: "\<exists>c' fs' k'. stopRecording clock k c fs = Some (c', fs', k') \<and> videoQueue c' = [] \<and>
               segmentsWithBlinks c' = segmentsWithBlinks c \<and>
               segmentsWithBlinks (startContinuousRecording c') = segmentsWithBlinks c \<and>
               videoQueue (startContinuousRecording c') = []"
    if "\<not> (bufferProcess c \<and> encoderExited c)"
    using stopRecording_result [OF assms that, of fs]
    by (auto simp: startContinuousRecording_def)
  have al: "videoQueue c' = [] \<and>
            segmentsWithBlinks c' = segmentsWithBlinks c \<and>
            segmentsWithBlinks (startContinuousRecording c') = segmentsWithBlinks c \<and>
            videoQueue (startContinuousRecording c') = []"
    if st: "stopRecording clock k c fs = Some (c', fs', k')" for c' fs' k'
  proof -
    from st have "\<not> (bufferProcess c \<and> encoderExited c)"
      by (auto simp: stopRecording_encoder_exited)
    from ex [OF this] st show ?thesis by auto
  qed
  from ex al show ?thesis
    by (simp add: new_controller_def)
qed

theorem stopRecording_keeps_must_keep_set_witness:
  "(\<forall>t. \<exists>n\<ge>(0::nat). t < int n * 25000) \<and>
   (\<exists>c' fs' k'. stopRecording (\<lambda>n. int n * 25000) 0
      ((startContinuousRecording (new_controller ''videos''))
         \<lparr>segmentsWithBlinks := [(''videos'', ''a.mp4'')],
          currentSegment := Some (''videos'', ''a.mp4'')\<rparr>)
      [(''videos'', ''a.mp4'')] = Some (c', fs', k') \<and> videoQueue c' = [] \<and>
      segmentsWithBlinks c' = [(''videos'', ''a.mp4'')])"
proof -
  let ?c = "(startContinuousRecording (new_controller ''videos''))
         \<lparr>segmentsWithBlinks := [(''videos'', ''a.mp4'')],
          currentSegment := Some (''videos'', ''a.mp4'')\<rparr>"
  have alive: "\<not> (bufferProcess ?c \<and> encoderExited ?c)"
    by (simp add: startContinuousRecording_def new_controller_def)
  from stopRecording_keeps_must_keep_set [OF clock_25000_unbounded,
      where c = ?c and fs = "[(''videos'', ''a.mp4'')]" and dir = "''videos''"] alive
  obtain c' fs' k' where
    "stopRecording (\<lambda>n. int n * 25000) 0 ?c [(''videos'', ''a.mp4'')] = Some (c', fs', k')"
    "videoQueue c' = []" "segmentsWithBlinks c' = segmentsWithBlinks ?c"
    by blast
  moreover have "segmentsWithBlinks ?c = [(''videos'', ''a.mp4'')]" by simp
  ultimately show ?thesis using clock_25000_unbounded by auto
qed

text \<open>
  The claim as the specification words it fails: the controller below has marked the
  segment \<open>b\<close>; after \<open>stopRecording\<close> has returned, the must-keep set still holds it.
\<close>

theorem stop_clears_must_keep_counterexample:
  "stopRecording (\<lambda>n. int n * 25000) 0
      ((startContinuousRecording (new_controller ''videos''))
         \<lparr>segmentsWithBlinks := [(''videos'', ''b.mp4'')],
          currentSegment := Some (''videos'', ''b.mp4''),
          videoQueue := [\<lparr>path = (''videos'', ''a.mp4''), timestamp = 0\<rparr>]\<rparr>)
      [(''videos'', ''a.mp4''), (''videos'', ''b.mp4'')] =
   Some ((new_controller ''videos'')
           \<lparr>segmentsWithBlinks := [(''videos'', ''b.mp4'')],
            currentSegment := Some (''videos'', ''b.mp4'')\<rparr>,
         [(''videos'', ''blink_b.mp4'')], 4)"
  by (simp add: stopRecording_def startContinuousRecording_def new_controller_def Let_def
      processVideos_def readdirSync_def endsWith_def path_join_def basename_def unlinkSync_def
      renameSync_def drain.simps performCleanup_def)

section \<open>Properties of a recording run\<close>

lemma set_create_file: "set (create_file fs p) = insert p (set fs)"
  by (auto simp: create_file_def)

lemma recorder_inv_start: "recorder_inv dir {} (recording_start dir fs0)"
  by (auto simp: recorder_inv_def recording_start_def startContinuousRecording_def
      new_controller_def cleanOutputDirectory_def)

lemma recorder_inv_mono:
  "recorder_inv dir ps s \<Longrightarrow> ps \<subseteq> ps' \<Longrightarrow> recorder_inv dir ps' s"
  by (auto simp: recorder_inv_def Let_def split: option.splits)

lemma recorder_inv_performCleanup:
  assumes "recorder_inv dir ps (c, fs)"
  shows "recorder_inv dir ps (performCleanup c now fs)"
proof -
  let ?c' = "fst (performCleanup c now fs)" and ?fs' = "snd (performCleanup c now fs)"
  have q: "set (videoQueue ?c') \<subseteq> set (videoQueue c)"
    by (simp add: performCleanup_queue set_dropWhileD subsetI)
  have sub: "set ?fs' \<subseteq> set fs"
    unfolding performCleanup_files by blast
  have del: "set fs - set ?fs' \<subseteq> path ` set (videoQueue c) - set (segmentsWithBlinks c)"
    unfolding performCleanup_files by (auto dest: set_takeWhileD)
  from assms have a1: "outputDir c = dir" "bufferProcess c"
    and a2: "set (segmentsWithBlinks c) \<subseteq> ps" "path ` set (videoQueue c) \<subseteq> ps"
    and a3: "set (segmentsWithBlinks c) \<subseteq> set fs"
    and a4: "{p \<in> set fs. fst p = dir \<and> endsWith (snd p) ''.mp4''} \<subseteq> ps"
    and a5: "\<And>cur. currentSegment c = Some cur \<Longrightarrow>
               cur \<in> ps \<and> cur \<in> set fs \<and> cur \<notin> path ` set (videoQueue c)"
    by (auto simp: recorder_inv_def Let_def)
  have b2: "path ` set (videoQueue ?c') \<subseteq> ps" using a2(2) q by blast
  have b3: "set (segmentsWithBlinks c) \<subseteq> set ?fs'" using a3 del by blast
  have b4: "{p \<in> set ?fs'. fst p = dir \<and> endsWith (snd p) ''.mp4''} \<subseteq> ps"
    using a4 sub by blast
  have b5: "cur \<in> ps \<and> cur \<in> set ?fs' \<and> cur \<notin> path ` set (videoQueue ?c')"
    if "currentSegment c = Some cur" for cur
    using a5 [OF that] del q by blast
  show ?thesis
    unfolding recorder_inv_def Let_def
    using a1 a2(1) b2 b3 b4 b5
    by (simp add: performCleanup_fields split: option.splits)
qed

lemma recorder_inv_blink:
  assumes "recorder_inv dir ps (c, fs)"
  shows "recorder_inv dir ps (handleBlinkDetected c, fs)"
  using assms
  by (auto simp: recorder_inv_def Let_def handleBlinkDetected_def set_add_def split: option.splits)

lemma recorder_inv_opening:
  assumes "recorder_inv dir ps (c, fs)" and "p \<notin> ps"
  shows "recorder_inv dir (insert p ps) (segment_opened c p now (create_file fs p))"
proof (cases "currentSegment c")
  case None
  then show ?thesis
    using assms
    by (auto simp: segment_opened_def recorder_inv_def Let_def set_create_file)
next
  case (Some prev)
  let ?c2 = "c\<lparr>currentSegment := Some p,
                videoQueue := videoQueue c @ [\<lparr>path = prev, timestamp = now\<rparr>]\<rparr>"
  have "recorder_inv dir (insert p ps) (?c2, create_file fs p)"
    using assms Some
    by (auto simp: recorder_inv_def Let_def set_create_file)
  from recorder_inv_performCleanup [OF this, of now]
  show ?thesis
    using Some by (simp add: segment_opened_def Let_def)
qed

lemma opened_append: "opened (es @ es') = opened es @ opened es'"
  by (induction es rule: opened.induct) auto

lemma opening_times_append: "opening_times (es @ es') = opening_times es @ opening_times es'"
  by (induction es rule: opening_times.induct) auto

lemma recorder_run_snoc:
  "recorder_run start (es @ [e]) = recorder_step (recorder_run start es) e"
  by (simp add: recorder_run_def)

lemma recorder_run_append:
  "recorder_run start (es @ es') = recorder_run (recorder_run start es) es'"
  by (simp add: recorder_run_def)

lemma recorder_inv_run:
  assumes "distinct (opened es)"
  shows "recorder_inv dir (set (opened es)) (recorder_run (recording_start dir fs0) es)"
  using assms
proof (induction es rule: rev_induct)
  case Nil
  then show ?case by (simp add: recorder_run_def recorder_inv_start)
next
  case (snoc e es)
  obtain c fs where s: "recorder_run (recording_start dir fs0) es = (c, fs)"
    by (cases "recorder_run (recording_start dir fs0) es")
  from snoc have inv: "recorder_inv dir (set (opened es)) (c, fs)"
    by (simp add: opened_append s)
  show ?case
  proof (cases e)
    case (Opening p now)
    with snoc.prems have "p \<notin> set (opened es)" by (simp add: opened_append)
    from recorder_inv_opening [OF inv this, of now]
    show ?thesis by (simp add: recorder_run_snoc s Opening opened_append)
  next
    case BlinkDetected
    with recorder_inv_blink [OF inv]
    show ?thesis by (simp add: recorder_run_snoc s opened_append)
  next
    case (CleanupTick now)
    with recorder_inv_performCleanup [OF inv, of now]
    show ?thesis by (simp add: recorder_run_snoc s opened_append)
  qed
qed

lemma recorder_step_marks:
  "set (segmentsWithBlinks (fst s)) \<subseteq> set (segmentsWithBlinks (fst (recorder_step s e)))"
  by (cases s; cases e)
     (auto simp: segment_opened_def Let_def performCleanup_fields handleBlinkDetected_def
       set_add_def split: option.splits)

lemma recorder_run_marks:
  "set (segmentsWithBlinks (fst s)) \<subseteq> set (segmentsWithBlinks (fst (recorder_run s es)))"
proof (induction es rule: rev_induct)
  case Nil
  then show ?case by (simp add: recorder_run_def)
next
  case (snoc e es)
  then show ?case
    using recorder_step_marks [of "recorder_run s es" e]
    by (auto simp: recorder_run_snoc)
qed

lemma set_renameSync:
  "renameSync fs old new = Some fs' \<Longrightarrow> set fs' = insert new (set fs - {old})"
  by (auto simp: renameSync_def split: if_splits)

lemma renameSync_None: "renameSync fs old new = None \<longleftrightarrow> old \<notin> set fs"
  by (simp add: renameSync_def)

lemma not_blink_name: "\<not> startsWith f ''blink_'' \<Longrightarrow> f \<noteq> ''blink_'' @ g"
  by (auto simp: startsWith_def)

lemma processVideos_loop_set:
  assumes "\<forall>g \<in> set files. endsWith g ''.mp4'' \<longrightarrow> \<not> startsWith g ''blink_''"
  shows "set (processVideos_loop c files fs) =
     (set fs - {(outputDir c, f) |f. f \<in> set files \<and> endsWith f ''.mp4''}) \<union>
     {(outputDir c, ''blink_'' @ f) |f. f \<in> set files \<and> endsWith f ''.mp4'' \<and>
        (\<exists>seg \<in> set (segmentsWithBlinks c). snd seg = f) \<and> (outputDir c, f) \<in> set fs}"
  using assms
proof (induction files arbitrary: fs)
  case Nil
  then show ?case by simp
next
  case (Cons f files)
  let ?dir = "outputDir c"
  let ?marked = "\<lambda>f. \<exists>seg \<in> set (segmentsWithBlinks c). snd seg = f"
  have nb: "\<And>g h. g \<in> set (f # files) \<Longrightarrow> endsWith g ''.mp4'' \<Longrightarrow> g \<noteq> ''blink_'' @ h"
    using Cons.prems not_blink_name by blast
  have rest: "\<forall>g \<in> set files. endsWith g ''.mp4'' \<longrightarrow> \<not> startsWith g ''blink_''"
    using Cons.prems by simp
  note ih = Cons.IH [OF rest]
  show ?case
  proof (cases "endsWith f ''.mp4''")
    case False
    then show ?thesis using ih [of fs] by auto
  next
    case mp4: True
    show ?thesis
    proof (cases "?marked f")
      case True
      then have ex: "list_ex (\<lambda>segment. basename segment = f) (segmentsWithBlinks c)"
        by (auto simp: list_ex_iff basename_def)
      show ?thesis
      proof (cases "(?dir, f) \<in> set fs")
        case inD: True
        then obtain fs' where rn: "renameSync fs (?dir, f) (?dir, ''blink_'' @ f) = Some fs'"
          using renameSync_None [of fs "(?dir, f)" "(?dir, ''blink_'' @ f)"] by auto
        have sfs': "set fs' = insert (?dir, ''blink_'' @ f) (set fs - {(?dir, f)})"
          using set_renameSync [OF rn] .
        have step: "processVideos_loop c (f # files) fs = processVideos_loop c files fs'"
          using mp4 ex rn by (simp add: Let_def path_join_def)
        show ?thesis
          unfolding step ih [of fs'] sfs'
          using mp4 True inD nb by auto
      next
        case notD: False
        then have rn: "renameSync fs (?dir, f) (?dir, ''blink_'' @ f) = None"
          by (simp add: renameSync_None)
        have step: "processVideos_loop c (f # files) fs = processVideos_loop c files fs"
          using mp4 ex rn by (simp add: Let_def path_join_def)
        show ?thesis
          unfolding step ih [of fs]
          using notD by auto
      qed
    next
      case False
      then have ex: "\<not> list_ex (\<lambda>segment. basename segment = f) (segmentsWithBlinks c)"
        by (auto simp: list_ex_iff basename_def)
      let ?fs' = "case unlinkSync fs (?dir, f) of Some fs' \<Rightarrow> fs' | None \<Rightarrow> fs"
      have step: "processVideos_loop c (f # files) fs = processVideos_loop c files ?fs'"
        using mp4 ex by (simp add: Let_def path_join_def split: option.splits)
      show ?thesis
        unfolding step ih [of ?fs'] set_unlink_logged
        using mp4 False by auto
    qed
  qed
qed

lemma processVideos_set:
  assumes "\<forall>p \<in> set fs. fst p = outputDir c \<and> endsWith (snd p) ''.mp4'' \<longrightarrow> \<not> startsWith (snd p) ''blink_''"
  shows "set (processVideos c fs) =
     (set fs - {p. fst p = outputDir c \<and> endsWith (snd p) ''.mp4''}) \<union>
     {(outputDir c, ''blink_'' @ f) |f. endsWith f ''.mp4'' \<and>
        (\<exists>seg \<in> set (segmentsWithBlinks c). snd seg = f) \<and> (outputDir c, f) \<in> set fs}"
proof -
  have files: "set (readdirSync fs (outputDir c)) = {f. (outputDir c, f) \<in> set fs}"
    by (force simp: readdirSync_def)
  have pre: "\<forall>g \<in> set (readdirSync fs (outputDir c)). endsWith g ''.mp4'' \<longrightarrow> \<not> startsWith g ''blink_''"
    using assms unfolding files by auto
  show ?thesis
    unfolding processVideos_def processVideos_loop_set [OF pre] files
    by auto
qed

lemma drain_files:
  assumes "drain clock k c fs = Some r"
  shows "set (fst (snd r)) \<subseteq> set fs \<and>
         set fs - set (fst (snd r)) \<subseteq> path ` set (videoQueue c) - set (segmentsWithBlinks c)"
proof (rule drain.raw_induct [where P = "\<lambda>clock k c fs r. set (fst (snd r)) \<subseteq> set fs \<and>
         set fs - set (fst (snd r)) \<subseteq> path ` set (videoQueue c) - set (segmentsWithBlinks c)",
       OF _ assms])
  fix drain' :: "(nat \<Rightarrow> int) \<Rightarrow> nat \<Rightarrow> controller \<Rightarrow> filesystem \<Rightarrow> (controller \<times> filesystem \<times> nat) option"
    and clock k c fs r
  assume IH: "\<And>clock k c fs r. drain' clock k c fs = Some r \<Longrightarrow>
         set (fst (snd r)) \<subseteq> set fs \<and>
         set fs - set (fst (snd r)) \<subseteq> path ` set (videoQueue c) - set (segmentsWithBlinks c)"
    and eq: "(if videoQueue c \<noteq> []
      then drain' clock (Suc k) (fst (performCleanup c (clock k) fs))
             (snd (performCleanup c (clock k) fs))
      else Some (c, fs, k)) = Some r"
  show "set (fst (snd r)) \<subseteq> set fs \<and>
         set fs - set (fst (snd r)) \<subseteq> path ` set (videoQueue c) - set (segmentsWithBlinks c)"
  proof (cases "videoQueue c = []")
    case True
    with eq show ?thesis by auto
  next
    case False
    let ?c1 = "fst (performCleanup c (clock k) fs)"
    let ?fs1 = "snd (performCleanup c (clock k) fs)"
    from False eq have "drain' clock (Suc k) ?c1 ?fs1 = Some r" by simp
    from IH [OF this]
    have ih: "set (fst (snd r)) \<subseteq> set ?fs1"
      "set ?fs1 - set (fst (snd r)) \<subseteq> path ` set (videoQueue ?c1) - set (segmentsWithBlinks c)"
      by (simp_all add: performCleanup_fields)
    have q: "set (videoQueue ?c1) \<subseteq> set (videoQueue c)"
      by (simp add: performCleanup_queue set_dropWhileD subsetI)
    have sub: "set ?fs1 \<subseteq> set fs"
      unfolding performCleanup_files by blast
    have del: "set fs - set ?fs1 \<subseteq> path ` set (videoQueue c) - set (segmentsWithBlinks c)"
      unfolding performCleanup_files by (auto dest: set_takeWhileD)
    from ih q sub del show ?thesis by blast
  qed
qed

lemma drain_frozen_clock_aux:
  assumes "drain clock k c fs = Some r"
  shows "clock = (\<lambda>n. t) \<longrightarrow> videoQueue c \<noteq> [] \<longrightarrow> aged c t (hd (videoQueue c))"
proof (rule drain.raw_induct [where P = "\<lambda>clock k c fs r.
         clock = (\<lambda>n. t) \<longrightarrow> videoQueue c \<noteq> [] \<longrightarrow> aged c t (hd (videoQueue c))",
       OF _ assms])
  fix drain' :: "(nat \<Rightarrow> int) \<Rightarrow> nat \<Rightarrow> controller \<Rightarrow> filesystem \<Rightarrow> (controller \<times> filesystem \<times> nat) option"
    and clock k c fs r
  assume IH: "\<And>clock k c fs r. drain' clock k c fs = Some r \<Longrightarrow>
         clock = (\<lambda>n. t) \<longrightarrow> videoQueue c \<noteq> [] \<longrightarrow> aged c t (hd (videoQueue c))"
    and eq: "(if videoQueue c \<noteq> []
      then drain' clock (Suc k) (fst (performCleanup c (clock k) fs))
             (snd (performCleanup c (clock k) fs))
      else Some (c, fs, k)) = Some r"
  show "clock = (\<lambda>n. t) \<longrightarrow> videoQueue c \<noteq> [] \<longrightarrow> aged c t (hd (videoQueue c))"
  proof (intro impI, rule ccontr)
    assume clk: "clock = (\<lambda>n. t)" and ne: "videoQueue c \<noteq> []"
      and young: "\<not> aged c t (hd (videoQueue c))"
    let ?c1 = "fst (performCleanup c (clock k) fs)"
    let ?fs1 = "snd (performCleanup c (clock k) fs)"
    from clk ne young have "dropWhile (aged c (clock k)) (videoQueue c) = videoQueue c"
      by (cases "videoQueue c") auto
    then have q: "videoQueue ?c1 = videoQueue c"
      by (simp add: performCleanup_queue)
    from ne eq have "drain' clock (Suc k) ?c1 ?fs1 = Some r" by simp
    from IH [OF this] clk q ne young show False
      by (simp add: aged_performCleanup)
  qed
qed

lemma drain_frozen_clock:
  assumes "videoQueue c \<noteq> []" and "\<not> aged c t (hd (videoQueue c))"
  shows "drain (\<lambda>n. t) k c fs = None"
proof (cases "drain (\<lambda>n. t) k c fs")
  case None
  then show ?thesis .
next
  case (Some r)
  from drain_frozen_clock_aux [OF Some, of t] assms show ?thesis by simp
qed

lemma sorted_takeWhile_aged:
  assumes "sorted (map timestamp q)" and "s \<in> set q" and "aged c now s"
  shows "s \<in> set (takeWhile (aged c now) q)"
  using assms
proof (induction q)
  case Nil
  then show ?case by simp
next
  case (Cons x q)
  show ?case
  proof (cases "s = x")
    case True
    with Cons.prems show ?thesis by simp
  next
    case False
    with Cons.prems have sq: "s \<in> set q" by simp
    with Cons.prems have "timestamp x \<le> timestamp s" by auto
    with Cons.prems(3) have "aged c now x" by (simp add: aged_def)
    moreover from Cons.IH Cons.prems sq have "s \<in> set (takeWhile (aged c now) q)" by simp
    ultimately show ?thesis by simp
  qed
qed

lemma cleanup_deletes_aged_unmarked:
  assumes "sorted (map timestamp (videoQueue c))" and "s \<in> set (videoQueue c)"
    and "aged c now s" and "path s \<notin> set (segmentsWithBlinks c)"
  shows "path s \<notin> set (snd (performCleanup c now fs))"
  using sorted_takeWhile_aged [OF assms(1-3)] assms(4)
  unfolding performCleanup_files by blast

lemma sorted_map_dropWhile:
  "sorted (map f xs) \<Longrightarrow> sorted (map f (dropWhile P xs))"
  by (induction xs) auto

lemma queue_sorted_performCleanup:
  assumes "sorted (map timestamp (videoQueue c))"
  shows "sorted (map timestamp (videoQueue (fst (performCleanup c now fs))))"
  using assms by (simp add: performCleanup_queue sorted_map_dropWhile)

lemma encoder_runs:
  "\<not> encoderExited (fst (recorder_run (recording_start dir fs0) es))"
proof (induction es rule: rev_induct)
  case Nil
  then show ?case
    by (simp add: recorder_run_def recording_start_def startContinuousRecording_def new_controller_def)
next
  case (snoc e es)
  obtain c fs where s: "recorder_run (recording_start dir fs0) es = (c, fs)"
    by (cases "recorder_run (recording_start dir fs0) es")
  with snoc have "\<not> encoderExited c" by simp
  then show ?case
    by (cases e)
      (simp_all add: recorder_run_snoc s segment_opened_def handleBlinkDetected_def
        performCleanup_fields Let_def split: option.splits)
qed

lemma queue_sorted_run:
  assumes "sorted (opening_times es)"
  shows "sorted (map timestamp (videoQueue (fst (recorder_run (recording_start dir fs0) es)))) \<and>
         timestamp ` set (videoQueue (fst (recorder_run (recording_start dir fs0) es)))
           \<subseteq> set (opening_times es)"
  using assms
proof (induction es rule: rev_induct)
  case Nil
  then show ?case
    by (simp add: recorder_run_def recording_start_def startContinuousRecording_def new_controller_def)
next
  case (snoc e es)
  obtain c fs where s: "recorder_run (recording_start dir fs0) es = (c, fs)"
    by (cases "recorder_run (recording_start dir fs0) es")
  from snoc.prems have "sorted (opening_times es)"
    by (simp add: opening_times_append sorted_append)
  with snoc.IH s have so: "sorted (map timestamp (videoQueue c))"
    and ts: "timestamp ` set (videoQueue c) \<subseteq> set (opening_times es)" by simp_all
  show ?case
  proof (cases e)
    case (Opening p now)
    from snoc.prems Opening have le: "\<forall>t \<in> set (opening_times es). t \<le> now"
      by (simp add: opening_times_append sorted_append)
    show ?thesis
    proof (cases "currentSegment c")
      case None
      with so ts show ?thesis
        by (auto simp: recorder_run_snoc s Opening segment_opened_def opening_times_append)
    next
      case (Some prev)
      let ?c2 = "c\<lparr>currentSegment := Some p,
                    videoQueue := videoQueue c @ [\<lparr>path = prev, timestamp = now\<rparr>]\<rparr>"
      have so2: "sorted (map timestamp (videoQueue ?c2))"
        using so ts le by (auto simp: sorted_append)
      have res: "recorder_run (recording_start dir fs0) (es @ [e]) =
                   performCleanup ?c2 now (create_file fs p)"
        using Some by (simp add: recorder_run_snoc s Opening segment_opened_def Let_def)
      have "set (videoQueue (fst (performCleanup ?c2 now (create_file fs p)))) \<subseteq> set (videoQueue ?c2)"
        unfolding performCleanup_queue by (rule subsetI) (erule set_dropWhileD)
      then have "timestamp ` set (videoQueue (fst (performCleanup ?c2 now (create_file fs p))))
                   \<subseteq> insert now (set (opening_times es))"
        using ts by fastforce
      with queue_sorted_performCleanup [OF so2, of now "create_file fs p"]
      show ?thesis
        unfolding res by (simp add: Opening opening_times_append)
    qed
  next
    case BlinkDetected
    with so ts show ?thesis
      by (simp add: recorder_run_snoc s opening_times_append handleBlinkDetected_def split: option.splits)
  next
    case (CleanupTick now)
    have "set (videoQueue (fst (performCleanup c now fs))) \<subseteq> set (videoQueue c)"
      by (simp add: performCleanup_queue set_dropWhileD subsetI)
    with ts have "timestamp ` set (videoQueue (fst (performCleanup c now fs))) \<subseteq> set (opening_times es)"
      by auto
    with queue_sorted_performCleanup [OF so, of now fs] CleanupTick
    show ?thesis
      by (simp add: recorder_run_snoc s opening_times_append)
  qed
qed


lemma startsWith_blink: "startsWith (''blink_'' @ f) ''blink_''"
  by (simp add: startsWith_def)

lemma sweep_after_run:
  assumes seg: "\<forall>p \<in> set (opened es). segment_file dir p"
    and dist: "distinct (opened es)"
    and run: "recorder_run (recording_start dir fs0) es = (c, fs)"
  shows "\<forall>p \<in> set (opened es). p \<notin> set (processVideos c fs)"
    and "\<forall>p \<in> set (segmentsWithBlinks c).
           path_join dir (''blink_'' @ basename p) \<in> set (processVideos c fs)"
    and "bufferProcess c"
    and "\<forall>s \<in> set (videoQueue c). \<not> startsWith (snd (path s)) ''blink_''"
proof -
  from recorder_inv_run [OF dist, of dir fs0] run
  have inv: "recorder_inv dir (set (opened es)) (c, fs)" by simp
  then have dir: "outputDir c = dir" and bp: "bufferProcess c"
    and marks: "set (segmentsWithBlinks c) \<subseteq> set (opened es)"
    and queue: "path ` set (videoQueue c) \<subseteq> set (opened es)"
    and files: "set (segmentsWithBlinks c) \<subseteq> set fs"
    and mp4: "{p \<in> set fs. fst p = dir \<and> endsWith (snd p) ''.mp4''} \<subseteq> set (opened es)"
    by (auto simp: recorder_inv_def Let_def)
  have pre: "\<forall>p \<in> set fs. fst p = outputDir c \<and> endsWith (snd p) ''.mp4'' \<longrightarrow>
               \<not> startsWith (snd p) ''blink_''"
    using mp4 seg dir by (auto simp: segment_file_def)
  note sweep = processVideos_set [OF pre, unfolded dir]
  show "\<forall>p \<in> set (opened es). p \<notin> set (processVideos c fs)"
  proof
    fix p assume "p \<in> set (opened es)"
    with seg have sp: "fst p = dir" "endsWith (snd p) ''.mp4''" "\<not> startsWith (snd p) ''blink_''"
      by (auto simp: segment_file_def)
    show "p \<notin> set (processVideos c fs)"
    proof
      assume "p \<in> set (processVideos c fs)"
      with sp(1,2) obtain f where "p = (dir, ''blink_'' @ f)"
        unfolding sweep by auto
      with sp(3) show False by (simp add: startsWith_def)
    qed
  qed
  show "\<forall>p \<in> set (segmentsWithBlinks c).
           path_join dir (''blink_'' @ basename p) \<in> set (processVideos c fs)"
  proof
    fix p assume m: "p \<in> set (segmentsWithBlinks c)"
    with marks seg have sp: "fst p = dir" "endsWith (snd p) ''.mp4''"
      by (auto simp: segment_file_def)
    from m files have "p \<in> set fs" by blast
    with sp(1) have "(dir, snd p) \<in> set fs" by (cases p) simp
    with m sp(2) have "(dir, ''blink_'' @ snd p) \<in> set (processVideos c fs)"
      unfolding sweep by blast
    then show "path_join dir (''blink_'' @ basename p) \<in> set (processVideos c fs)"
      by (simp add: path_join_def basename_def)
  qed
  show "bufferProcess c" by (rule bp)
  show "\<forall>s \<in> set (videoQueue c). \<not> startsWith (snd (path s)) ''blink_''"
    using queue seg by (auto simp: segment_file_def)
qed

text \<open>
  C4. For every run of the recorder (a new controller started on the cleaned output
  directory, the encoder opening distinct segment files of that directory, blinks and
  cleanup ticks in any order) that ends with \<open>stopRecording\<close>: the call returns; every
  segment that was in the must-keep set at any point of the run is present afterwards under
  its name with the \<open>blink_\<close> prefix, and no longer under its old name; every opened
  segment that was never marked is absent afterwards. When the opening times do not
  decrease, a cleanup at any time removes the file of every queued segment that is aged at
  that time and not marked.
\<close>

theorem must_keep_kept_unmarked_removed:
  assumes seg: "\<forall>p \<in> set (opened es). segment_file dir p"
    and dist: "distinct (opened es)"
    and clk: "\<forall>t. \<exists>n\<ge>k. t < clock n"
    and run: "recorder_run (recording_start dir fs0) es = (c, fs)"
  shows "(\<exists>c' fs' k'. stopRecording clock k c fs = Some (c', fs', k') \<and>
            (\<forall>es1 es2 p. es = es1 @ es2 \<and>
                p \<in> set (segmentsWithBlinks (fst (recorder_run (recording_start dir fs0) es1))) \<longrightarrow>
                path_join dir (''blink_'' @ basename p) \<in> set fs' \<and> p \<notin> set fs') \<and>
            (\<forall>p \<in> set (opened es). p \<notin> set (segmentsWithBlinks c) \<longrightarrow> p \<notin> set fs')) \<and>
         (sorted (opening_times es) \<longrightarrow>
            (\<forall>now. \<forall>s \<in> set (videoQueue c).
               aged c now s \<and> path s \<notin> set (segmentsWithBlinks c) \<longrightarrow>
               path s \<notin> set (snd (performCleanup c now fs))))"
proof (intro conjI impI)
  note sw = sweep_after_run [OF seg dist run]
  from encoder_runs [of dir fs0 es] run have alive: "\<not> (bufferProcess c \<and> encoderExited c)"
    by simp
  from stopRecording_result [OF clk alive, of fs]
  obtain c' fs' k' where stop: "stopRecording clock k c fs = Some (c', fs', k')" by blast
  let ?fs1 = "processVideos c fs"
  from stop sw(3) alive
  have dr: "drain clock k (c\<lparr>bufferProcess := False, cleanupInterval := False\<rparr>) ?fs1
      = Some (c', fs', k')"
    by (simp add: stopRecording_def Let_def)
  from drain_files [OF dr]
  have sub: "set fs' \<subseteq> set ?fs1" and del: "set ?fs1 - set fs' \<subseteq> path ` set (videoQueue c)"
    by auto
  have kept: "path_join dir (''blink_'' @ basename p) \<in> set fs' \<and> p \<notin> set fs'"
    if es: "es = es1 @ es2"
      and m: "p \<in> set (segmentsWithBlinks (fst (recorder_run (recording_start dir fs0) es1)))"
    for es1 es2 p
  proof -
    from recorder_run_marks [of "recorder_run (recording_start dir fs0) es1" es2] m
    have mc: "p \<in> set (segmentsWithBlinks c)"
      using run es by (auto simp: recorder_run_append)
    with sw(2) have in1: "path_join dir (''blink_'' @ basename p) \<in> set ?fs1" by blast
    have "path_join dir (''blink_'' @ basename p) \<notin> path ` set (videoQueue c)"
    proof
      assume "path_join dir (''blink_'' @ basename p) \<in> path ` set (videoQueue c)"
      then obtain s where "s \<in> set (videoQueue c)" "snd (path s) = ''blink_'' @ basename p"
        by (auto simp: path_join_def dest: sym)
      with sw(4) not_blink_name show False by blast
    qed
    with in1 del have "path_join dir (''blink_'' @ basename p) \<in> set fs'" by blast
    moreover from recorder_inv_run [OF dist, of dir fs0] run mc
    have "p \<in> set (opened es)" by (auto simp: recorder_inv_def Let_def)
    with sw(1) sub have "p \<notin> set fs'" by blast
    ultimately show ?thesis by simp
  qed
  have gone: "\<forall>p \<in> set (opened es). p \<notin> set (segmentsWithBlinks c) \<longrightarrow> p \<notin> set fs'"
    using sw(1) sub by blast
  from stop kept gone
  show "\<exists>c' fs' k'. stopRecording clock k c fs = Some (c', fs', k') \<and>
            (\<forall>es1 es2 p. es = es1 @ es2 \<and>
                p \<in> set (segmentsWithBlinks (fst (recorder_run (recording_start dir fs0) es1))) \<longrightarrow>
                path_join dir (''blink_'' @ basename p) \<in> set fs' \<and> p \<notin> set fs') \<and>
            (\<forall>p \<in> set (opened es). p \<notin> set (segmentsWithBlinks c) \<longrightarrow> p \<notin> set fs')"
    by blast
next
  assume so: "sorted (opening_times es)"
  from queue_sorted_run [OF so, of dir fs0] run
  have "sorted (map timestamp (videoQueue c))" by simp
  then show "\<forall>now. \<forall>s \<in> set (videoQueue c).
               aged c now s \<and> path s \<notin> set (segmentsWithBlinks c) \<longrightarrow>
               path s \<notin> set (snd (performCleanup c now fs))"
    using cleanup_deletes_aged_unmarked by blast
qed

theorem must_keep_kept_unmarked_removed_witness:
  "distinct (opened [Opening (''videos'', ''a.mp4'') 0, BlinkDetected,
        Opening (''videos'', ''b.mp4'') 30000, Opening (''videos'', ''c.mp4'') 60000,
        CleanupTick 100000]) \<and>
   (\<exists>c' fs' k'.
      stopRecording (\<lambda>n. int n * 25000) 0
        (fst (recorder_run (recording_start ''videos'' [(''videos'', ''old.mp4'')])
           [Opening (''videos'', ''a.mp4'') 0, BlinkDetected,
            Opening (''videos'', ''b.mp4'') 30000, Opening (''videos'', ''c.mp4'') 60000,
            CleanupTick 100000]))
        (snd (recorder_run (recording_start ''videos'' [(''videos'', ''old.mp4'')])
           [Opening (''videos'', ''a.mp4'') 0, BlinkDetected,
            Opening (''videos'', ''b.mp4'') 30000, Opening (''videos'', ''c.mp4'') 60000,
            CleanupTick 100000])) = Some (c', fs', k') \<and>
      (''videos'', ''blink_a.mp4'') \<in> set fs' \<and> (''videos'', ''a.mp4'') \<notin> set fs' \<and>
      (''videos'', ''b.mp4'') \<notin> set fs' \<and> (''videos'', ''c.mp4'') \<notin> set fs')"
proof -
  let ?a = "(''videos'', ''a.mp4'')" and ?b = "(''videos'', ''b.mp4'')"
    and ?c = "(''videos'', ''c.mp4'')"
  let ?es1 = "[Opening ?a 0, BlinkDetected]"
  let ?es2 = "[Opening ?b 30000, Opening ?c 60000, CleanupTick 100000]"
  let ?es = "[Opening ?a 0, BlinkDetected, Opening ?b 30000, Opening ?c 60000, CleanupTick 100000]"
  let ?start = "recording_start ''videos'' [(''videos'', ''old.mp4'')]"
  let ?C = "(new_controller ''videos'')
      \<lparr>bufferProcess := True, cleanupInterval := True, segmentsWithBlinks := [?a],
       currentSegment := Some ?c, videoQueue := [\<lparr>path = ?b, timestamp = 60000\<rparr>]\<rparr>"
  have seg: "\<forall>p \<in> set (opened ?es). segment_file ''videos'' p"
    by (simp add: segment_file_def endsWith_def startsWith_def)
  have dist: "distinct (opened ?es)" by simp
  have run: "recorder_run ?start ?es = (?C, [?a, ?b, ?c])"
    by (simp add: recorder_run_def recording_start_def startContinuousRecording_def
        new_controller_def cleanOutputDirectory_def endsWith_def segment_opened_def
        create_file_def handleBlinkDetected_def set_add_def performCleanup_def Let_def
        unlinkSync_def)
  have m1: "?a \<in> set (segmentsWithBlinks (fst (recorder_run ?start ?es1)))"
    by (simp add: recorder_run_def recording_start_def startContinuousRecording_def
        new_controller_def cleanOutputDirectory_def endsWith_def segment_opened_def
        create_file_def handleBlinkDetected_def set_add_def Let_def)
  have split: "?es = ?es1 @ ?es2" by simp
  have unmarked: "?b \<notin> set (segmentsWithBlinks ?C)" "?c \<notin> set (segmentsWithBlinks ?C)"
    by simp_all
  from must_keep_kept_unmarked_removed [OF seg dist clock_25000_unbounded run]
  have "\<exists>c' fs' k'. stopRecording (\<lambda>n. int n * 25000) 0 ?C [?a, ?b, ?c] = Some (c', fs', k') \<and>
            (\<forall>es1 es2 p. ?es = es1 @ es2 \<and>
                p \<in> set (segmentsWithBlinks (fst (recorder_run ?start es1))) \<longrightarrow>
                path_join ''videos'' (''blink_'' @ basename p) \<in> set fs' \<and> p \<notin> set fs') \<and>
            (\<forall>p \<in> set (opened ?es). p \<notin> set (segmentsWithBlinks ?C) \<longrightarrow> p \<notin> set fs')"
    by (rule conjunct1)
  then obtain c' fs' k' where
    stop: "stopRecording (\<lambda>n. int n * 25000) 0 ?C [?a, ?b, ?c] = Some (c', fs', k')"
    and kept: "\<forall>es1 es2 p. ?es = es1 @ es2 \<and>
                p \<in> set (segmentsWithBlinks (fst (recorder_run ?start es1))) \<longrightarrow>
                path_join ''videos'' (''blink_'' @ basename p) \<in> set fs' \<and> p \<notin> set fs'"
    and gone: "\<forall>p \<in> set (opened ?es). p \<notin> set (segmentsWithBlinks ?C) \<longrightarrow> p \<notin> set fs'"
    by (elim exE conjE)
  from kept have "?es = ?es1 @ ?es2 \<and>
                ?a \<in> set (segmentsWithBlinks (fst (recorder_run ?start ?es1))) \<longrightarrow>
                path_join ''videos'' (''blink_'' @ basename ?a) \<in> set fs' \<and> ?a \<notin> set fs'"
    by (elim allE)
  with m1 have ka: "(''videos'', ''blink_a.mp4'') \<in> set fs'" "?a \<notin> set fs'"
    by (simp_all add: path_join_def basename_def)
  from gone have "?b \<notin> set (segmentsWithBlinks ?C) \<longrightarrow> ?b \<notin> set fs'"
    and "?c \<notin> set (segmentsWithBlinks ?C) \<longrightarrow> ?c \<notin> set fs'"
    by simp_all
  then have gb: "?b \<notin> set fs'" "?c \<notin> set fs'" by simp_all
  from stop ka gb
  have "\<exists>c' fs' k'. stopRecording (\<lambda>n. int n * 25000) 0 ?C [?a, ?b, ?c] = Some (c', fs', k') \<and>
      (''videos'', ''blink_a.mp4'') \<in> set fs' \<and> ?a \<notin> set fs' \<and> ?b \<notin> set fs' \<and> ?c \<notin> set fs'"
    by blast
  with dist show ?thesis by (simp only: run fst_conv snd_conv simp_thms)
qed

section \<open>Properties of the serial link\<close>

lemma processResponse_busy:
  "response \<noteq> [] \<Longrightarrow> \<not> isBusy (fst (processResponse l response))"
  by (simp add: processResponse_def Let_def split: option.splits prod.splits)

lemma processResponse_response:
  "response \<noteq> [] \<Longrightarrow> ResponseEvent response \<in> set (snd (processResponse l response))"
  by (simp add: processResponse_def Let_def split: option.splits prod.splits)

lemma processResponse_stays_idle:
  "\<not> isBusy l \<Longrightarrow> \<not> isBusy (fst (processResponse l response))"
  by (simp add: processResponse_def Let_def split: option.splits prod.splits)

lemma process_messages_stays_idle:
  "\<not> isBusy l \<Longrightarrow> \<not> isBusy (fst (process_messages l messages))"
  by (induction messages arbitrary: l) (simp_all add: Let_def processResponse_stays_idle)

lemma process_messages_busy:
  "\<exists>m \<in> set messages. trim m \<noteq> [] \<Longrightarrow> \<not> isBusy (fst (process_messages l messages))"
proof (induction messages arbitrary: l)
  case Nil
  then show ?case by simp
next
  case (Cons m messages)
  show ?case
  proof (cases "trim m = []")
    case True
    with Cons.prems have "\<exists>m \<in> set messages. trim m \<noteq> []" by auto
    from Cons.IH [OF this] show ?thesis by (simp add: Let_def)
  next
    case False
    then have "\<not> isBusy (fst (processResponse l (trim m)))"
      by (rule processResponse_busy)
    then show ?thesis
      by (simp add: Let_def process_messages_stays_idle)
  qed
qed

text \<open>
  C10. Every nonempty inbound line clears the busy flag, whether or not it matches the
  sensor pattern: \<open>processResponse\<close> does so for every nonempty response it is handed
  (and emits the response), and after the data listener has processed a chunk holding a
  complete line that is nonempty (the listener trims the lines, so a line of white space
  counts as empty), the link is not busy.
\<close>

theorem complete_line_clears_busy:
  "(response \<noteq> [] \<longrightarrow>
      \<not> isBusy (fst (processResponse l response)) \<and>
      ResponseEvent response \<in> set (snd (processResponse l response))) \<and>
   ((\<exists>line \<in> set (complete_lines l received). line \<noteq> []) \<longrightarrow>
      \<not> isBusy (fst (on_data l received)))"
  by (auto simp: processResponse_busy processResponse_response on_data_def complete_lines_def
      Let_def intro!: process_messages_busy)

theorem complete_line_clears_busy_witness:
  "complete_lines ((opened_link ''COM3'')\<lparr>isBusy := True\<rparr>) ''ERR\<newline>1.'' = [''ERR''] \<and>
   \<not> isBusy (fst (on_data ((opened_link ''COM3'')\<lparr>isBusy := True\<rparr>) ''ERR\<newline>1.'')) \<and>
   \<not> isBusy (fst (processResponse ((opened_link ''COM3'')\<lparr>isBusy := True\<rparr>) ''ERR''))"
proof -
  have cl: "complete_lines ((opened_link ''COM3'')\<lparr>isBusy := True\<rparr>) ''ERR\<newline>1.'' = [''ERR'']"
    by (simp add: complete_lines_def opened_link_def new_link_def trim_def is_space_def)
  from complete_line_clears_busy
    [of "''ERR''" "(opened_link ''COM3'')\<lparr>isBusy := True\<rparr>" "''ERR\<newline>1.''"]
  show ?thesis unfolding cl by simp
qed

lemma busy_wait_exact:
  "10 dvd t \<Longrightarrow> t < 1000 \<Longrightarrow>
     \<not> fst (busy_wait busy_after busy t) \<and>
     10 dvd snd (busy_wait busy_after busy t) \<and>
     t \<le> snd (busy_wait busy_after busy t) \<and> snd (busy_wait busy_after busy t) \<le> 1000 \<and>
     (busy \<longleftrightarrow> t < snd (busy_wait busy_after busy t)) \<and>
     (\<forall>u. t < u \<and> u < snd (busy_wait busy_after busy t) \<and> 10 dvd u \<longrightarrow> busy_after u) \<and>
     (t < snd (busy_wait busy_after busy t) \<and> snd (busy_wait busy_after busy t) < 1000 \<longrightarrow>
        \<not> busy_after (snd (busy_wait busy_after busy t)))"
proof (induction busy_after busy t rule: busy_wait.induct)
  case (1 busy_after busy busyWaitTime)
  show ?case
  proof (cases busy)
    case False
    then have "busy_wait busy_after busy busyWaitTime = (False, busyWaitTime)"
      by (subst busy_wait.simps) simp
    with False 1(2,3) show ?thesis by auto
  next
    case True
    show ?thesis
    proof (cases "busyWaitTime + 10 \<ge> MAX_BUSY_WAIT")
      case ge: True
      from 1(2,3) have "busyWaitTime + 10 \<le> 1000" by presburger
      with ge have eq: "busyWaitTime + 10 = 1000" by (simp add: MAX_BUSY_WAIT_def)
      have res: "busy_wait busy_after busy busyWaitTime = (False, 1000)"
        using True ge eq by (subst busy_wait.simps) (simp add: Let_def)
      have "\<not> (busyWaitTime < u \<and> u < 1000 \<and> 10 dvd u)" for u
        using eq 1(2) by presburger
      then show ?thesis
        unfolding res using eq True by auto
    next
      case lt: False
      then have lt': "busyWaitTime + 10 < 1000" by (simp add: MAX_BUSY_WAIT_def)
      have dv: "10 dvd busyWaitTime + 10" using 1(2) by simp
      note ih = 1(1) [OF True refl lt dv lt']
      define w where "w = snd (busy_wait busy_after (busy_after (busyWaitTime + 10)) (busyWaitTime + 10))"
      have unf: "busy_wait busy_after busy busyWaitTime =
                   busy_wait busy_after (busy_after (busyWaitTime + 10)) (busyWaitTime + 10)"
        using True lt by (subst busy_wait.simps) (simp add: Let_def)
      from ih have i1: "\<not> fst (busy_wait busy_after (busy_after (busyWaitTime + 10)) (busyWaitTime + 10))"
        and i2: "10 dvd w" and i3: "busyWaitTime + 10 \<le> w" and i4: "w \<le> 1000"
        and i5: "busy_after (busyWaitTime + 10) \<longleftrightarrow> busyWaitTime + 10 < w"
        and i6: "\<forall>u. busyWaitTime + 10 < u \<and> u < w \<and> 10 dvd u \<longrightarrow> busy_after u"
        and i7: "busyWaitTime + 10 < w \<and> w < 1000 \<longrightarrow> \<not> busy_after w"
        unfolding w_def by blast+
      have a: "busy_after u" if "busyWaitTime < u" "u < w" "10 dvd u" for u
      proof (cases "u = busyWaitTime + 10")
        case True
        with that i5 show ?thesis by simp
      next
        case False
        with that(1,3) 1(2) have "busyWaitTime + 10 < u" by presburger
        with that i6 show ?thesis by blast
      qed
      have b: "\<not> busy_after w" if "w < 1000"
      proof (cases "w = busyWaitTime + 10")
        case True
        with i5 show ?thesis by simp
      next
        case False
        with i3 have "busyWaitTime + 10 < w" by simp
        with that i7 show ?thesis by blast
      qed
      have "snd (busy_wait busy_after busy busyWaitTime) = w"
        unfolding unf w_def ..
      moreover have "\<not> fst (busy_wait busy_after busy busyWaitTime)"
        unfolding unf by (rule i1)
      ultimately show ?thesis
        using True i2 i3 i4 a b by auto
    qed
  qed
qed

lemma busy_wait_always_busy:
  assumes "\<forall>u<1000. busy_after u"
  shows "snd (busy_wait busy_after True 0) = 1000"
proof (rule ccontr)
  assume ne: "snd (busy_wait busy_after True 0) \<noteq> 1000"
  from busy_wait_exact [of 0 busy_after True]
  have "0 < snd (busy_wait busy_after True 0)" "snd (busy_wait busy_after True 0) \<le> 1000"
    "0 < snd (busy_wait busy_after True 0) \<and> snd (busy_wait busy_after True 0) < 1000 \<longrightarrow>
        \<not> busy_after (snd (busy_wait busy_after True 0))"
    by simp_all
  with ne assms show False by auto
qed

lemma sendCommand_waited:
  "sent_waited (sendCommand busy_after write_ok l command) = snd (busy_wait busy_after (isBusy l) 0)"
  by (cases "port l") (simp_all add: sendCommand_def Let_def)

lemma sendCommand_written:
  assumes "write_ok" and "port l = Some p"
  shows "sendCommand busy_after write_ok l command =
           \<lparr>sent_link = l\<lparr>isBusy := True\<rparr>,
            sent_waited = snd (busy_wait busy_after (isBusy l) 0), sent_watchdog = Some 100,
            sent_text = Some (command @ [CHR 0x0A]), sent_error = None\<rparr>"
  using assms by (simp add: sendCommand_def Let_def)

lemma sendCommand_no_error:
  assumes "sent_error (sendCommand busy_after write_ok l command) = None"
  shows "sendCommand busy_after write_ok l command =
           \<lparr>sent_link = l\<lparr>isBusy := True\<rparr>,
            sent_waited = snd (busy_wait busy_after (isBusy l) 0), sent_watchdog = Some 100,
            sent_text = Some (command @ [CHR 0x0A]), sent_error = None\<rparr>"
proof (cases "port l")
  case None
  with assms show ?thesis by (simp add: sendCommand_def Let_def)
next
  case (Some p)
  with assms have "write_ok"
    by (simp add: sendCommand_def Let_def split: if_splits)
  with Some show ?thesis by (simp add: sendCommand_written)
qed

lemma sendCommand_write_failed:
  assumes "sent_error (sendCommand busy_after write_ok l command) = Some FailedToSendCommand"
  shows "\<not> isBusy (sent_link (sendCommand busy_after write_ok l command)) \<and>
         sent_watchdog (sendCommand busy_after write_ok l command) = None"
proof (cases "port l")
  case None
  with assms show ?thesis by (simp add: sendCommand_def Let_def)
next
  case (Some p)
  with assms show ?thesis
    by (cases write_ok) (simp_all add: sendCommand_def Let_def)
qed

lemma processResponse_isBusy:
  "isBusy (fst (processResponse l response)) \<longleftrightarrow> isBusy l \<and> response = []"
  by (simp add: processResponse_def Let_def split: option.splits prod.splits)

lemma deliver_isBusy:
  "isBusy (deliver l responses) \<longleftrightarrow> isBusy l \<and> (\<forall>response \<in> set responses. response = [])"
  by (induction responses arbitrary: l) (auto simp: processResponse_isBusy)

lemma watchdog_fire_idle: "\<not> isBusy (watchdog_fire l)"
  by (simp add: watchdog_fire_def)

lemma link_after_watchdog:
  assumes "sent_watchdog r = Some delay"
  shows "delay \<le> T \<Longrightarrow> \<not> isBusy (link_after r arrivals T)"
    and "T < delay \<Longrightarrow> isBusy (link_after r arrivals T) \<longleftrightarrow>
           isBusy (sent_link r) \<and> (\<forall>a \<in> set arrivals. fst a \<le> T \<longrightarrow> snd a = [])"
  using assms by (auto simp: link_after_def deliver_isBusy watchdog_fire_idle)

lemma link_after_no_watchdog:
  assumes "sent_watchdog r = None"
  shows "isBusy (link_after r arrivals T) \<longleftrightarrow>
           isBusy (sent_link r) \<and> (\<forall>a \<in> set arrivals. fst a \<le> T \<longrightarrow> snd a = [])"
  using assms by (auto simp: link_after_def deliver_isBusy)

text \<open>
  C6. \<open>sendCommand\<close> cannot wait forever on a busy link. The waiting loop sleeps in steps
  of 10 ms and for at most 1000 ms in all; it does not sleep at all when the link is not
  busy; on a busy link it is left at the first multiple of 10 ms at which it finds the flag
  clear, and at the ceiling of 1000 ms when it finds the flag set at every step before (so
  also when the link stays busy throughout); it leaves the flag clear, and the command
  proceeds. After a successful write the command has been written and the link is busy; from
  100 ms after the write on the link is not busy, whatever has arrived or not; before, it is
  busy exactly as long as no nonempty line has arrived. After a failed write the link is not
  busy and no watchdog is set.
\<close>

theorem sendCommand_bounded_wait:
  assumes "sendCommand busy_after write_ok l command = r"
  shows "10 dvd sent_waited r \<and> sent_waited r \<le> 1000 \<and>
         (isBusy l \<longleftrightarrow> 0 < sent_waited r) \<and>
         (\<forall>t. 0 < t \<and> t < sent_waited r \<and> 10 dvd t \<longrightarrow> busy_after t) \<and>
         (0 < sent_waited r \<and> sent_waited r < 1000 \<longrightarrow> \<not> busy_after (sent_waited r)) \<and>
         (isBusy l \<and> (\<forall>t<1000. busy_after t) \<longrightarrow> sent_waited r = 1000) \<and>
         \<not> fst (busy_wait busy_after (isBusy l) 0) \<and>
         (write_ok \<and> port l \<noteq> None \<longrightarrow> sent_error r = None) \<and>
         (sent_error r = None \<longrightarrow>
            sent_text r = Some (command @ [CHR 0x0A]) \<and> isBusy (sent_link r) \<and>
            (\<forall>arrivals T. 100 \<le> T \<longrightarrow> \<not> isBusy (link_after r arrivals T)) \<and>
            (\<forall>arrivals T. T < 100 \<longrightarrow>
               (isBusy (link_after r arrivals T) \<longleftrightarrow>
                  (\<forall>a \<in> set arrivals. fst a \<le> T \<longrightarrow> snd a = [])))) \<and>
         (sent_error r = Some FailedToSendCommand \<longrightarrow>
            \<not> isBusy (sent_link r) \<and> sent_watchdog r = None \<and>
            (\<forall>arrivals T. \<not> isBusy (link_after r arrivals T)))"
proof -
  have w: "sent_waited r = snd (busy_wait busy_after (isBusy l) 0)"
    unfolding assms [symmetric] by (rule sendCommand_waited)
  have z: "(10::nat) dvd 0" "(0::nat) < 1000" by simp_all
  note bw = busy_wait_exact [OF z, of busy_after "isBusy l", folded w]
  have always: "isBusy l \<and> (\<forall>t<1000. busy_after t) \<longrightarrow> sent_waited r = 1000"
    unfolding w using busy_wait_always_busy [of busy_after] by auto
  have ok: "write_ok \<and> port l \<noteq> None \<longrightarrow> sent_error r = None"
    unfolding assms [symmetric] by (auto simp: sendCommand_written)
  have sent: "sent_error r = None \<longrightarrow>
            sent_text r = Some (command @ [CHR 0x0A]) \<and> isBusy (sent_link r) \<and>
            (\<forall>arrivals T. 100 \<le> T \<longrightarrow> \<not> isBusy (link_after r arrivals T)) \<and>
            (\<forall>arrivals T. T < 100 \<longrightarrow>
               (isBusy (link_after r arrivals T) \<longleftrightarrow>
                  (\<forall>a \<in> set arrivals. fst a \<le> T \<longrightarrow> snd a = [])))"
  proof
    assume "sent_error r = None"
    then have "r = \<lparr>sent_link = l\<lparr>isBusy := True\<rparr>,
            sent_waited = snd (busy_wait busy_after (isBusy l) 0), sent_watchdog = Some 100,
            sent_text = Some (command @ [CHR 0x0A]), sent_error = None\<rparr>"
      unfolding assms [symmetric] by (rule sendCommand_no_error)
    then have f: "sent_text r = Some (command @ [CHR 0x0A])" "isBusy (sent_link r)"
      "sent_watchdog r = Some 100"
      by simp_all
    from link_after_watchdog [OF f(3)] f(1,2)
    show "sent_text r = Some (command @ [CHR 0x0A]) \<and> isBusy (sent_link r) \<and>
            (\<forall>arrivals T. 100 \<le> T \<longrightarrow> \<not> isBusy (link_after r arrivals T)) \<and>
            (\<forall>arrivals T. T < 100 \<longrightarrow>
               (isBusy (link_after r arrivals T) \<longleftrightarrow>
                  (\<forall>a \<in> set arrivals. fst a \<le> T \<longrightarrow> snd a = [])))"
      by simp
  qed
  have failed: "sent_error r = Some FailedToSendCommand \<longrightarrow>
            \<not> isBusy (sent_link r) \<and> sent_watchdog r = None \<and>
            (\<forall>arrivals T. \<not> isBusy (link_after r arrivals T))"
  proof
    assume "sent_error r = Some FailedToSendCommand"
    then have f: "\<not> isBusy (sent_link r)" "sent_watchdog r = None"
      unfolding assms [symmetric] using sendCommand_write_failed by blast+
    with link_after_no_watchdog [OF f(2)]
    show "\<not> isBusy (sent_link r) \<and> sent_watchdog r = None \<and>
            (\<forall>arrivals T. \<not> isBusy (link_after r arrivals T))"
      by simp
  qed
  from bw always ok sent failed show ?thesis
    by (elim conjE) (intro conjI; assumption)
qed

theorem sendCommand_bounded_wait_witness:
  "isBusy ((opened_link ''COM3'')\<lparr>isBusy := True\<rparr>) \<and>
   port ((opened_link ''COM3'')\<lparr>isBusy := True\<rparr>) \<noteq> None \<and>
   sent_waited (sendCommand (\<lambda>t. t < 30) True ((opened_link ''COM3'')\<lparr>isBusy := True\<rparr>) ''s'') = 30 \<and>
   sent_error (sendCommand (\<lambda>t. t < 30) True ((opened_link ''COM3'')\<lparr>isBusy := True\<rparr>) ''s'') = None \<and>
   sent_text (sendCommand (\<lambda>t. t < 30) True ((opened_link ''COM3'')\<lparr>isBusy := True\<rparr>) ''s'')
     = Some ''s\<newline>'' \<and>
   isBusy (link_after
      (sendCommand (\<lambda>t. t < 30) True ((opened_link ''COM3'')\<lparr>isBusy := True\<rparr>) ''s'') [] 99) \<and>
   \<not> isBusy (link_after
      (sendCommand (\<lambda>t. t < 30) True ((opened_link ''COM3'')\<lparr>isBusy := True\<rparr>) ''s'') [] 100) \<and>
   \<not> isBusy (link_after
      (sendCommand (\<lambda>t. t < 30) True ((opened_link ''COM3'')\<lparr>isBusy := True\<rparr>) ''s'')
      [(40, ''ERR'')] 50)"
proof -
  let ?l = "(opened_link ''COM3'')\<lparr>isBusy := True\<rparr>"
  let ?r = "sendCommand (\<lambda>t. t < 30) True ?l ''s''"
  have l: "isBusy ?l" "port ?l \<noteq> None" by (simp_all add: opened_link_def new_link_def)
  have w: "sent_waited ?r = 30"
    by (simp add: sendCommand_def opened_link_def new_link_def Let_def MAX_BUSY_WAIT_def
        busy_wait.simps)
  from sendCommand_bounded_wait [OF refl, of "\<lambda>t. t < 30" True ?l "''s''"] l
  have e: "sent_error ?r = None" by blast
  with sendCommand_bounded_wait [OF refl, of "\<lambda>t. t < 30" True ?l "''s''"]
  have s: "sent_text ?r = Some (''s'' @ [CHR 0x0A])"
    and a: "\<forall>arrivals T. 100 \<le> T \<longrightarrow> \<not> isBusy (link_after ?r arrivals T)"
    and b: "\<forall>arrivals T. T < 100 \<longrightarrow>
               (isBusy (link_after ?r arrivals T) \<longleftrightarrow>
                  (\<forall>a \<in> set arrivals. fst a \<le> T \<longrightarrow> snd a = []))"
    by blast+
  from a have a1: "\<not> isBusy (link_after ?r [] 100)" by simp
  from b have "isBusy (link_after ?r [] 99) \<longleftrightarrow> (\<forall>a \<in> set ([]::(nat \<times> string) list). fst a \<le> 99 \<longrightarrow> snd a = [])"
    by simp
  then have b1: "isBusy (link_after ?r [] 99)" by simp
  from b have "isBusy (link_after ?r [(40, ''ERR'')] 50) \<longleftrightarrow>
      (\<forall>a \<in> set [(40::nat, ''ERR'')]. fst a \<le> 50 \<longrightarrow> snd a = [])"
    by simp
  then have b2: "\<not> isBusy (link_after ?r [(40, ''ERR'')] 50)" by simp
  from l w e s a1 b1 b2 show ?thesis by simp
qed

lemma first_response_processResponse:
  "first_response (snd (processResponse l response)) =
     (if response = [] then None else Some response)"
  by (simp add: processResponse_def Let_def split: option.splits prod.splits)

lemma await_response_line:
  assumes "t < 5000" and "response \<noteq> []"
  shows "snd (await_response l ((t, Line response) # later)) = handleResponse response"
  using assms by (simp add: Let_def first_response_processResponse)

lemma await_response_empty_line:
  assumes "t < 5000"
  shows "await_response l ((t, Line []) # later) = await_response l later"
  using assms by (simp add: Let_def processResponse_def)

lemma await_response_skip:
  assumes "\<forall>x \<in> set before. fst x < 5000 \<and> snd x = Line []"
  shows "await_response l (before @ later) = await_response l later"
  using assms
proof (induction before)
  case Nil
  then show ?case by simp
next
  case (Cons x before)
  then obtain t where x: "x = (t, Line [])" "t < 5000" by (cases x) auto
  with Cons show ?case by (simp add: await_response_empty_line del: await_response.simps)
qed

lemma await_response_timeout:
  assumes "\<forall>x \<in> set arrivals. fst x \<ge> 5000 \<or> snd x = Line []"
  shows "snd (await_response l arrivals) = Inl SensorReadTimeout"
  using assms
proof (induction arrivals)
  case Nil
  then show ?case by simp
next
  case (Cons x arrivals)
  obtain t ev where x: "x = (t, ev)" by (cases x)
  show ?case
  proof (cases "t \<ge> 5000")
    case True
    with x show ?thesis by simp
  next
    case False
    with Cons.prems x have "ev = Line []" by simp
    with False x Cons show ?thesis
      by (simp add: await_response_empty_line del: await_response.simps)
  qed
qed

lemma data_event_iff:
  "(\<exists>v1 v2. DataEvent v1 v2 \<in> set (snd (processResponse l response))) \<longleftrightarrow>
     response \<noteq> [] \<and> sensor_match response \<noteq> None"
  by (auto simp: processResponse_def Let_def split: option.splits prod.splits)

lemma ReadSensor_written:
  assumes "port l = Some p"
  shows "ReadSensor busy_after True l arrivals = await_response (l\<lparr>isBusy := True\<rparr>) arrivals"
  using assms by (simp add: ReadSensor_def sendCommand_def Let_def)

text \<open>
  C5, as the code has it. On a link with a port, the first nonempty response line that arrives
  within 5000 ms settles the read: with the parsed reading when it matches the pattern of
  two decimal numbers, with the invalid-format error when it does not. When no nonempty
  line arrives within 5000 ms the read fails with the timeout error, and when the write
  fails, with the write error. A line that does not match the pattern produces no
  \<open>data\<close> event, but it is not ignored by an outstanding read: it settles it.
\<close>

theorem ReadSensor_first_response_decides:
  assumes "port l = Some p"
  shows "((\<forall>x \<in> set before. fst x < 5000 \<and> snd x = Line []) \<and> t < 5000 \<and> response \<noteq> [] \<longrightarrow>
            snd (ReadSensor busy_after True l (before @ (t, Line response) # later)) =
              (case sensor_match response of
                 Some (m1, m2) \<Rightarrow> Inr (parseFloat m1, parseFloat m2)
               | None \<Rightarrow> Inl InvalidSensorDataFormat)) \<and>
         ((\<forall>x \<in> set arrivals. fst x \<ge> 5000 \<or> snd x = Line []) \<longrightarrow>
            snd (ReadSensor busy_after True l arrivals) = Inl SensorReadTimeout) \<and>
         snd (ReadSensor busy_after False l arrivals) = Inl FailedToSendCommand \<and>
         ((\<exists>v1 v2. DataEvent v1 v2 \<in> set (snd (processResponse l response))) \<longleftrightarrow>
            response \<noteq> [] \<and> sensor_match response \<noteq> None)"
proof (intro conjI impI)
  assume a: "(\<forall>x \<in> set before. fst x < 5000 \<and> snd x = Line []) \<and> t < 5000 \<and> response \<noteq> []"
  then show "snd (ReadSensor busy_after True l (before @ (t, Line response) # later)) =
        (case sensor_match response of
           Some (m1, m2) \<Rightarrow> Inr (parseFloat m1, parseFloat m2)
         | None \<Rightarrow> Inl InvalidSensorDataFormat)"
    by (simp add: ReadSensor_written [OF assms] await_response_skip
        await_response_line handleResponse_def del: await_response.simps)
next
  assume "\<forall>x \<in> set arrivals. fst x \<ge> 5000 \<or> snd x = Line []"
  then show "snd (ReadSensor busy_after True l arrivals) = Inl SensorReadTimeout"
    by (simp add: ReadSensor_written [OF assms] await_response_timeout)
next
  show "snd (ReadSensor busy_after False l arrivals) = Inl FailedToSendCommand"
    using assms by (simp add: ReadSensor_def sendCommand_def Let_def)
next
  show "(\<exists>v1 v2. DataEvent v1 v2 \<in> set (snd (processResponse l response))) \<longleftrightarrow>
      response \<noteq> [] \<and> sensor_match response \<noteq> None"
    by (rule data_event_iff)
qed

lemma sensor_match_examples:
  "sensor_match ''1.5,2.5'' = Some (''1.5'', ''2.5'')"
  "sensor_match ''12.50,   0.25'' = Some (''12.50'', ''0.25'')"
  "sensor_match ''OK'' = None"
  "sensor_match ''1.5,2.5x'' = None"
  "sensor_match ''1.5;2.5'' = None"
  "sensor_match ''15,25'' = None"
  by (simp_all add: sensor_match_def take_number_def is_digit_def is_space_def Let_def)

lemma parseFloat_examples:
  "parseFloat ''1.5'' = 3/2" "parseFloat ''2.5'' = 5/2" "parseFloat ''12.50'' = 25/2"
  by (simp_all add: parseFloat_def parse_digits_def is_digit_def Let_def)

lemma opened_link_port:
  "port (opened_link selected) = Some \<lparr>port_path = selected, isOpen = True\<rparr>"
  by (simp add: opened_link_def new_link_def)

theorem ReadSensor_first_response_decides_witness:
  "snd (ReadSensor (\<lambda>t. False) True (opened_link ''COM3'')
          [(3, Line []), (20, Line ''1.5,2.5'')]) = Inr (3/2, 5/2) \<and>
   snd (ReadSensor (\<lambda>t. False) True (opened_link ''COM3'')
          [(5000, Line ''1.5,2.5'')]) = Inl SensorReadTimeout"
proof -
  have b: "\<forall>x \<in> set [(3::nat, Line [])]. fst x < 5000 \<and> snd x = Line []" by simp
  have c: "\<forall>x \<in> set [(5000::nat, Line ''1.5,2.5'')]. fst x \<ge> 5000 \<or> snd x = Line []" by simp
  note inst = ReadSensor_first_response_decides [OF opened_link_port,
      of "[(3, Line [])]" 20 "''1.5,2.5''" "\<lambda>t. False" "''COM3''" "[]"
      "[(5000, Line ''1.5,2.5'')]"]
  from inst b
  have "snd (ReadSensor (\<lambda>t. False) True (opened_link ''COM3'')
          ([(3, Line [])] @ [(20, Line ''1.5,2.5'')])) = Inr (3/2, 5/2)"
    by (simp add: sensor_match_examples parseFloat_examples del: await_response.simps)
  moreover from inst c
  have "snd (ReadSensor (\<lambda>t. False) True (opened_link ''COM3'')
          [(5000, Line ''1.5,2.5'')]) = Inl SensorReadTimeout"
    by blast
  ultimately show ?thesis by simp
qed

text \<open>
  The claim as the specification words it fails: the line \<open>OK\<close> is not a sensor response,
  and it decides the outstanding read, which fails although a valid response follows within
  the time limit (without that line the read returns the reading).
\<close>

theorem non_sensor_line_decides_read_counterexample:
  "snd (ReadSensor (\<lambda>t. False) True (opened_link ''COM3'')
          [(10, Line ''OK''), (20, Line ''1.5,2.5'')]) = Inl InvalidSensorDataFormat \<and>
   snd (ReadSensor (\<lambda>t. False) True (opened_link ''COM3'')
          [(20, Line ''1.5,2.5'')]) = Inr (3/2, 5/2)"
  by (simp add: ReadSensor_def sendCommand_def Let_def processResponse_def handleResponse_def
      opened_link_def new_link_def sensor_match_examples parseFloat_examples)

lemma selectPort_saves_selection:
  assumes "selectPort savedPortPath a = Some (saved1, Inr selected)"
  shows "saved1 = Some selected"
  using assms
  by (auto simp: selectPort_def Let_def split: option.splits if_splits)

lemma selectPort_fresh:
  assumes "listed a \<noteq> []" and "ask_user (listed a) (answers a) = Some selected"
  shows "selectPort None a = Some (Some selected, Inr selected)"
  using assms by (simp add: selectPort_def Let_def)

lemma initialize_open_failure:
  assumes "selectPort savedPortPath a = Some (saved1, Inr selected)" and "\<not> openOk a"
  shows "initialize l savedPortPath (a # later) =
        initialize
          ((close_if_open l)
             \<lparr>portPath := Some selected,
              port := Some \<lparr>port_path = selected, isOpen = False\<rparr>\<rparr>)
          None later"
proof -
  from assms(1) have "saved1 = Some selected" by (rule selectPort_saves_selection)
  with assms show ?thesis by (simp add: Let_def)
qed

lemma initialize_retries_all:
  assumes "\<forall>a \<in> set fails. listed a \<noteq> [] \<and> ask_user (listed a) (answers a) \<noteq> None \<and> \<not> openOk a"
  shows "\<exists>l'. initialize l None (fails @ later) = initialize l' None later"
  using assms
proof (induction fails arbitrary: l)
  case Nil
  then show ?case by auto
next
  case (Cons a fails)
  then obtain selected where sel: "ask_user (listed a) (answers a) = Some selected"
    and ne: "listed a \<noteq> []" and fail: "\<not> openOk a"
    by auto
  from selectPort_fresh [OF ne sel] have sp: "selectPort None a = Some (Some selected, Inr selected)" .
  let ?l1 = "(close_if_open l)
             \<lparr>portPath := Some selected,
              port := Some \<lparr>port_path = selected, isOpen = False\<rparr>\<rparr>"
  have "initialize l None ((a # fails) @ later) = initialize ?l1 None (fails @ later)"
    using initialize_open_failure [OF sp fail, of l "fails @ later"] by simp
  moreover from Cons.IH [of ?l1] Cons.prems
  obtain l' where "initialize ?l1 None (fails @ later) = initialize l' None later" by auto
  ultimately show ?case by auto
qed

lemma selectPort_error:
  assumes "selectPort savedPortPath a = Some (saved1, Inl e)"
  shows "e = NoSerialPortsFound \<and> listed a = []"
  using assms
  by (auto simp: selectPort_def Let_def split: option.splits if_splits)

lemma selectPort_no_ports:
  "listed a = [] \<Longrightarrow> selectPort None a = Some (None, Inl NoSerialPortsFound)"
  by (simp add: selectPort_def Let_def)

lemma close_if_open_portPath:
  "portPath l = None \<Longrightarrow> portPath (close_if_open l) = None"
  by (simp add: close_if_open_def close_def split: option.splits)

lemma initialize_no_ports:
  assumes "\<forall>a \<in> set passes. listed a = []" and "portPath l = None"
  shows "initialize l None passes = None"
  using assms
proof (induction passes arbitrary: l)
  case Nil
  then show ?case by simp
next
  case (Cons a passes)
  then have sp: "selectPort None a = Some (None, Inl NoSerialPortsFound)"
    by (simp add: selectPort_no_ports)
  from Cons.prems(2) have p0: "portPath (close_if_open l) = None"
    by (rule close_if_open_portPath)
  have "initialize l None (a # passes) = initialize (close_if_open l) None passes"
    using sp p0 by (simp add: Let_def)
  also have "\<dots> = None"
    using Cons.IH [OF _ p0] Cons.prems(1) by simp
  finally show ?case .
qed

lemma initialize_selection_failure:
  assumes "selectPort savedPortPath a = Some (saved1, Inl e)"
  shows "initialize l savedPortPath (a # later) =
           (if saved1 = portPath (close_if_open l)
            then initialize (close_if_open l) None later
            else Some (close_if_open l, saved1, Inl e, later))"
  using assms by (simp add: Let_def)

lemma initialize_surfaced:
  assumes "initialize l savedPortPath passes = Some (l', saved', Inl e, rest)"
  shows "e = NoSerialPortsFound \<and> saved' \<noteq> portPath l'"
  using assms
proof (induction passes arbitrary: l savedPortPath)
  case Nil
  then show ?case by simp
next
  case (Cons a later)
  show ?case
  proof (cases "selectPort savedPortPath a")
    case None
    with Cons.prems show ?thesis by simp
  next
    case (Some res)
    obtain saved1 outcome where res: "res = (saved1, outcome)" by (cases res)
    show ?thesis
    proof (cases outcome)
      case (Inl e1)
      with Some res have sp: "selectPort savedPortPath a = Some (saved1, Inl e1)" by simp
      note step = initialize_selection_failure [OF sp, of l later]
      show ?thesis
      proof (cases "saved1 = portPath (close_if_open l)")
        case True
        with step Cons.prems
        have "initialize (close_if_open l) None later = Some (l', saved', Inl e, rest)" by simp
        then show ?thesis by (rule Cons.IH)
      next
        case False
        with step Cons.prems
        have "l' = close_if_open l" "saved' = saved1" "e = e1" by simp_all
        with False selectPort_error [OF sp] show ?thesis by simp
      qed
    next
      case (Inr selected)
      with Some res have sp: "selectPort savedPortPath a = Some (saved1, Inr selected)" by simp
      show ?thesis
      proof (cases "openOk a")
        case True
        with sp Cons.prems show ?thesis by (simp add: Let_def)
      next
        case False
        from initialize_open_failure [OF sp False, of l later] Cons.prems
        have "initialize
          ((close_if_open l)
             \<lparr>portPath := Some selected,
              port := Some \<lparr>port_path = selected, isOpen = False\<rparr>\<rparr>)
          None later = Some (l', saved', Inl e, rest)"
          by simp
        then show ?thesis by (rule Cons.IH)
      qed
    qed
  qed
qed

text \<open>
  C9, as the code has it. A port that \<open>selectPort\<close> returns is always the saved one
  (reused from the cache or saved on confirmation), so whenever the open fails after a
  selection, \<open>initialize\<close> clears the saved path and starts over with a new selection;
  this happens after every such failure, not only after the first: any number of passes
  in which the operator selects a port that then fails to open are made one after the
  other without an error reaching the caller, and the error of a failed open never reaches
  the caller at all. The one error that can reach the caller is that of a selection that
  finds no port, and it does so exactly when the saved path differs from the path of the
  link at that moment; when they agree the selection is retried as well, so that
  \<open>initialize\<close> on a new link with nothing saved does not return as long as no port is
  listed.
\<close>

theorem initialize_retries_every_open_failure:
  "(selectPort savedPortPath a = Some (saved1, Inr selected) \<and> \<not> openOk a \<longrightarrow>
      saved1 = Some selected \<and>
      initialize l savedPortPath (a # later) =
        initialize
          ((close_if_open l)
             \<lparr>portPath := Some selected,
              port := Some \<lparr>port_path = selected, isOpen = False\<rparr>\<rparr>)
          None later) \<and>
   ((\<forall>a \<in> set fails. listed a \<noteq> [] \<and> ask_user (listed a) (answers a) \<noteq> None \<and> \<not> openOk a) \<longrightarrow>
      (\<exists>l'. initialize l None (fails @ later) = initialize l' None later)) \<and>
   (selectPort savedPortPath a = Some (saved1, Inl e) \<longrightarrow>
      initialize l savedPortPath (a # later) =
        (if saved1 = portPath (close_if_open l)
         then initialize (close_if_open l) None later
         else Some (close_if_open l, saved1, Inl e, later))) \<and>
   (\<forall>l' saved' e' rest.
      initialize l savedPortPath passes = Some (l', saved', Inl e', rest) \<longrightarrow>
        e' = NoSerialPortsFound \<and> saved' \<noteq> portPath l') \<and>
   ((\<forall>a \<in> set passes. listed a = []) \<longrightarrow> initialize new_link None passes = None)"
proof (intro conjI)
  show "selectPort savedPortPath a = Some (saved1, Inr selected) \<and> \<not> openOk a \<longrightarrow>
      saved1 = Some selected \<and>
      initialize l savedPortPath (a # later) =
        initialize
          ((close_if_open l)
             \<lparr>portPath := Some selected,
              port := Some \<lparr>port_path = selected, isOpen = False\<rparr>\<rparr>)
          None later"
    using selectPort_saves_selection initialize_open_failure by blast
next
  show "(\<forall>a \<in> set fails. listed a \<noteq> [] \<and> ask_user (listed a) (answers a) \<noteq> None \<and> \<not> openOk a) \<longrightarrow>
      (\<exists>l'. initialize l None (fails @ later) = initialize l' None later)"
    using initialize_retries_all by blast
next
  show "selectPort savedPortPath a = Some (saved1, Inl e) \<longrightarrow>
      initialize l savedPortPath (a # later) =
        (if saved1 = portPath (close_if_open l)
         then initialize (close_if_open l) None later
         else Some (close_if_open l, saved1, Inl e, later))"
    using initialize_selection_failure by blast
next
  show "\<forall>l' saved' e' rest.
      initialize l savedPortPath passes = Some (l', saved', Inl e', rest) \<longrightarrow>
        e' = NoSerialPortsFound \<and> saved' \<noteq> portPath l'"
    using initialize_surfaced by blast
next
  show "(\<forall>a \<in> set passes. listed a = []) \<longrightarrow> initialize new_link None passes = None"
    using initialize_no_ports [of passes new_link] by (simp add: new_link_def)
qed

theorem initialize_retries_every_open_failure_witness:
  "selectPort (Some ''COM3'') \<lparr>listed = [''COM3''], answers = [], openOk = False\<rparr>
     = Some (Some ''COM3'', Inr ''COM3'') \<and>
   initialize new_link (Some ''COM3'')
     [\<lparr>listed = [''COM3''], answers = [], openOk = False\<rparr>,
      \<lparr>listed = [''COM4''], answers = [(1, True)], openOk = True\<rparr>]
   = initialize
       (new_link\<lparr>portPath := Some ''COM3'',
                 port := Some \<lparr>port_path = ''COM3'', isOpen = False\<rparr>\<rparr>)
       None [\<lparr>listed = [''COM4''], answers = [(1, True)], openOk = True\<rparr>] \<and>
   initialize new_link None
     [\<lparr>listed = [], answers = [], openOk = True\<rparr>,
      \<lparr>listed = [], answers = [], openOk = True\<rparr>] = None"
proof -
  have sel: "selectPort (Some ''COM3'') \<lparr>listed = [''COM3''], answers = [], openOk = False\<rparr>
     = Some (Some ''COM3'', Inr ''COM3'')"
    by (simp add: selectPort_def Let_def)
  from initialize_retries_every_open_failure
    [of "Some ''COM3''" "\<lparr>listed = [''COM3''], answers = [], openOk = False\<rparr>"
        "Some ''COM3''" "''COM3''" new_link
        "[\<lparr>listed = [''COM4''], answers = [(1, True)], openOk = True\<rparr>]" "[]" _
        "[\<lparr>listed = [], answers = [], openOk = True\<rparr>,
          \<lparr>listed = [], answers = [], openOk = True\<rparr>]"] sel
  show ?thesis by (simp add: new_link_def close_if_open_def)
qed

text \<open>
  The claim as the specification words it fails: the cached port fails to open, the
  automatic retry fails as well, and this second failure in a row is not passed on to the
  caller: \<open>initialize\<close> retries again, and returns normally when the third pass opens
  the port. Likewise two selections in a row that find no port are not passed on.
\<close>

theorem second_open_failure_retried_counterexample:
  "initialize new_link (Some ''COM3'')
     [\<lparr>listed = [''COM3''], answers = [], openOk = False\<rparr>,
      \<lparr>listed = [''COM3''], answers = [(1, True)], openOk = False\<rparr>,
      \<lparr>listed = [''COM3''], answers = [(1, True)], openOk = True\<rparr>]
   = Some (new_link\<lparr>portPath := Some ''COM3'',
                    port := Some \<lparr>port_path = ''COM3'', isOpen = True\<rparr>\<rparr>,
           Some ''COM3'', Inr True, []) \<and>
   initialize new_link None
     [\<lparr>listed = [], answers = [], openOk = True\<rparr>,
      \<lparr>listed = [], answers = [], openOk = True\<rparr>,
      \<lparr>listed = [''COM3''], answers = [(1, True)], openOk = True\<rparr>]
   = Some (new_link\<lparr>portPath := Some ''COM3'',
                    port := Some \<lparr>port_path = ''COM3'', isOpen = True\<rparr>\<rparr>,
           Some ''COM3'', Inr True, [])"
  by (simp add: new_link_def selectPort_def close_if_open_def Let_def)

end
